theory Spec2Isabelle
  imports Main "HOL-Library.Word"
begin

unbundle bit_operations_syntax

section \<open>Memory model\<close>

text \<open>
  The codec of \<^verbatim>\<open>ecdsa_utils.c\<close> works on caller-supplied byte buffers through raw
  pointers. A \<^verbatim>\<open>uint8_t *\<close> is an address in one flat byte store, so that a pointer
  into the middle of a buffer (\<^verbatim>\<open>asn_sig + out_len_r\<close>, \<^verbatim>\<open>rs + component_length\<close>)
  is the same kind of value as the buffer's start. \<^verbatim>\<open>NULL\<close> is address 0. Every byte
  read and every byte written is appended to a log, so that "the code never touches
  offset k" is a statement about the log and not only about the final contents.

  C leaves pointer arithmetic that wraps around undefined; addresses are natural numbers
  and do not wrap. The pointer comparisons of the source that subtract one
  (\<^verbatim>\<open>out_buf + out_buf_len - 1\<close>) are evaluated over the integers, so that an empty
  buffer gives the address just before it, as on the machine.

  A \<^verbatim>\<open>size_t\<close> is a natural number. The only subtractions on sizes in the source
  (\<^verbatim>\<open>*asn_sig_len - out_len_r\<close>, \<^verbatim>\<open>asn1_len - consumed_r\<close>,
  \<^verbatim>\<open>*out_int_len - integer_length\<close>) are shown below never to go under zero
  (lemmas \<open>encode_der_integer_le_capacity\<close>, \<open>decode_asn1_uint_le_input\<close>; the third
  is guarded in the source itself). A \<^verbatim>\<open>size_t *\<close> in-out cell is passed by value and
  returned: \<open>None\<close> is the null pointer, \<open>Some n\<close> a cell holding \<open>n\<close>.
\<close>

type_synonym byte = "8 word"
type_synonym addr = nat

record machine =
  mem :: "addr \<Rightarrow> byte"
  rd_log :: "addr list"
  wr_log :: "addr list"

definition NULL :: addr where
  "NULL = 0"

definition load :: "addr \<Rightarrow> machine \<Rightarrow> byte \<times> machine" where
  "load p m = (mem m p, m\<lparr>rd_log := rd_log m @ [p]\<rparr>)"

definition store :: "addr \<Rightarrow> byte \<Rightarrow> machine \<Rightarrow> machine" where
  "store p b m = m\<lparr>mem := (mem m)(p := b), wr_log := wr_log m @ [p]\<rparr>"

text \<open>
  \<^verbatim>\<open>memcpy(dst, src, n)\<close>: the \<open>n\<close> source bytes are read, then written. C leaves the
  result undefined when the two ranges overlap. The theorems about the contents of an
  output buffer are stated for buffers of the caller that do not overlap (\<open>disjoint\<close>
  below); the theorems about bounds and about failure hold for every call.
\<close>

definition memcpy :: "addr \<Rightarrow> addr \<Rightarrow> nat \<Rightarrow> machine \<Rightarrow> machine" where
  "memcpy dst src n m =
     m\<lparr>mem := (\<lambda>a. if dst \<le> a \<and> a < dst + n then mem m (src + (a - dst)) else mem m a),
       rd_log := rd_log m @ [src..<src + n],
       wr_log := wr_log m @ [dst..<dst + n]\<rparr>"

definition memset :: "addr \<Rightarrow> byte \<Rightarrow> nat \<Rightarrow> machine \<Rightarrow> machine" where
  "memset dst b n m =
     m\<lparr>mem := (\<lambda>a. if dst \<le> a \<and> a < dst + n then b else mem m a),
       wr_log := wr_log m @ [dst..<dst + n]\<rparr>"

text \<open>The \<open>n\<close> bytes stored from address \<open>p\<close> on.\<close>

definition bytes_at :: "machine \<Rightarrow> addr \<Rightarrow> nat \<Rightarrow> byte list" where
  "bytes_at m p n = map (mem m) [p..<p + n]"

text \<open>Two address ranges that share no byte.\<close>

definition disjoint :: "addr \<Rightarrow> nat \<Rightarrow> addr \<Rightarrow> nat \<Rightarrow> bool" where
  "disjoint p n q k \<longleftrightarrow> p + n \<le> q \<or> q + k \<le> p"

section \<open>Constants of the source\<close>

definition DER_INTEGER_MAX_LEN :: nat where
  "DER_INTEGER_MAX_LEN = 0x7F"

definition ASN1_DER_TAG_OFFSET :: nat where
  "ASN1_DER_TAG_OFFSET = 0"

definition ASN1_DER_LEN_OFFSET :: nat where
  "ASN1_DER_LEN_OFFSET = 1"

definition ASN1_DER_VAL_OFFSET :: nat where
  "ASN1_DER_VAL_OFFSET = 2"

definition DER_TAG_INTEGER :: byte where
  "DER_TAG_INTEGER = 0x02"

definition DER_UINT_MASK :: byte where
  "DER_UINT_MASK = 0x80"

section \<open>The integer encoder\<close>

text \<open>
  The loop of \<^verbatim>\<open>encode_der_integer\<close> that searches for the beginning of the integer:
  \<^verbatim>\<open>for(; cur_data < (data_end - 1); cur_data++) if (*cur_data != 0x00) break;\<close>
\<close>

function skip_zeros :: "addr \<Rightarrow> addr \<Rightarrow> machine \<Rightarrow> addr \<times> machine" where
  "skip_zeros cur_data data_end m =
     (if int cur_data < int data_end - 1 then
        (case load cur_data m of (b, m1) \<Rightarrow>
           if b \<noteq> 0x00 then (cur_data, m1)
           else skip_zeros (cur_data + 1) data_end m1)
      else (cur_data, m))"
  by pat_completeness auto
termination
  by (relation "measure (\<lambda>(cur_data, data_end, m). data_end - cur_data)") auto

declare skip_zeros.simps [simp del]

definition encode_der_integer ::
  "addr \<Rightarrow> nat \<Rightarrow> addr \<Rightarrow> nat \<Rightarrow> machine \<Rightarrow> nat \<times> machine" where
  "encode_der_integer data data_len out_buf out_buf_len m =
     (let out_end = int out_buf + int out_buf_len - 1;
          tag_field = out_buf + ASN1_DER_TAG_OFFSET;
          length_field = out_buf + ASN1_DER_LEN_OFFSET;
          integer_field_start = out_buf + ASN1_DER_VAL_OFFSET;
          data_end = data + data_len
      in if data_len = 0 then (0, m)
         else
           (case skip_zeros data data_end m of (cur_data, m1) \<Rightarrow>
            case load cur_data m1 of (b, m2) \<Rightarrow>
              let integer_field_cur =
                    (if b AND DER_UINT_MASK \<noteq> 0 then integer_field_start + 1
                     else integer_field_start);
                  write_length = data_end - cur_data
              in if int integer_field_cur + int write_length - 1 > out_end then (0, m2)
                 else
                   let integer_len = (integer_field_cur + write_length) - integer_field_start
                   in if integer_len > DER_INTEGER_MAX_LEN then (0, m2)
                      else
                        let m3 = memcpy integer_field_cur cur_data write_length m2;
                            m4 = store tag_field DER_TAG_INTEGER m3;
                            m5 = store length_field (of_nat integer_len) m4;
                            m6 = (if integer_field_cur \<noteq> integer_field_start
                                  then store integer_field_start 0x00 m5 else m5)
                        in (integer_len + ASN1_DER_VAL_OFFSET, m6)))"

section \<open>The signature encoder\<close>

definition ecdsa_rs_to_asn1 ::
  "addr \<Rightarrow> addr \<Rightarrow> nat \<Rightarrow> addr \<Rightarrow> nat option \<Rightarrow> machine \<Rightarrow> bool \<times> nat option \<times> machine" where
  "ecdsa_rs_to_asn1 r s rs_len asn_sig asn_sig_len m =
     (case asn_sig_len of
        None \<Rightarrow> (False, asn_sig_len, m)
      | Some capacity \<Rightarrow>
          if r = NULL \<or> s = NULL \<or> asn_sig = NULL then (False, asn_sig_len, m)
          else
            (case encode_der_integer r rs_len asn_sig capacity m of (out_len_r, m1) \<Rightarrow>
               if out_len_r = 0 then (False, asn_sig_len, m1)
               else
                 let s_start = asn_sig + out_len_r;
                     s_len = capacity - out_len_r
                 in (case encode_der_integer s rs_len s_start s_len m1 of (out_len_s, m2) \<Rightarrow>
                       if out_len_s = 0 then (False, asn_sig_len, m2)
                       else (True, Some (out_len_r + out_len_s), m2))))"

section \<open>The integer decoder\<close>

text \<open>
  The result is the return value, the in-out cell \<^verbatim>\<open>*out_int_len\<close> after the call, and
  the memory. \<^verbatim>\<open>integer_length\<close> is a \<^verbatim>\<open>uint8_t\<close> in the source and a byte here. Each
  dereference of the source is one \<open>load\<close>.
\<close>

text \<open>
  Lines 184 to 196 of the source, the stuffing step: the first component of the result
  says that the early \<^verbatim>\<open>return 0\<close> for a second zero byte was taken.
\<close>

definition strip_stuffing :: "byte \<Rightarrow> addr \<Rightarrow> machine \<Rightarrow> bool \<times> byte \<times> addr \<times> machine" where
  "strip_stuffing integer_length integer_field_cur m =
     (if unat integer_length > 1 then
        (case load integer_field_cur m of (b0, m1) \<Rightarrow>
           let integer_length' = (if b0 = 0x00 then integer_length - 1 else integer_length);
               integer_field_cur' =
                 (if b0 = 0x00 then integer_field_cur + 1 else integer_field_cur)
           in (case load integer_field_cur' m1 of (b1, m2) \<Rightarrow>
                 (b1 = 0x00, integer_length', integer_field_cur', m2)))
      else (False, integer_length, integer_field_cur, m))"

definition decode_asn1_uint ::
  "addr \<Rightarrow> nat \<Rightarrow> addr \<Rightarrow> nat \<Rightarrow> machine \<Rightarrow> nat \<times> nat \<times> machine" where
  "decode_asn1_uint asn1 asn1_len out_int out_int_len m =
     (if asn1_len < ASN1_DER_VAL_OFFSET + 1 then (0, out_int_len, m)
      else
        let asn1_end = asn1 + asn1_len;
            tag_field = asn1 + ASN1_DER_TAG_OFFSET;
            length_field = asn1 + ASN1_DER_LEN_OFFSET;
            integer_field_start = asn1 + ASN1_DER_VAL_OFFSET
        in case load tag_field m of (tag, m1) \<Rightarrow>
           if tag \<noteq> DER_TAG_INTEGER then (0, out_int_len, m1)
           else
             case load length_field m1 of (len0, m2) \<Rightarrow>
             if len0 = 0 then (0, out_int_len, m2)
             else
               case load length_field m2 of (len1, m3) \<Rightarrow>
               if unat len1 > DER_INTEGER_MAX_LEN then (0, out_int_len, m3)
               else
                 case load length_field m3 of (integer_length0, m4) \<Rightarrow>
                 if int integer_field_start + int (unat integer_length0) - 1 > int asn1_end - 1
                 then (0, out_int_len, m4)
                 else
                   case strip_stuffing integer_length0 integer_field_start m4
                   of (second_zero, integer_length, integer_field_cur, m5) \<Rightarrow>
                     if second_zero then (0, out_int_len, m5)
                     else if unat integer_length > out_int_len then (0, out_int_len, m5)
                     else
                       let padding = out_int_len - unat integer_length;
                           m6 = memset out_int 0 padding m5;
                           m7 = memcpy (out_int + padding) integer_field_cur
                                  (unat integer_length) m6
                       in (integer_field_cur + unat integer_length - tag_field,
                           unat integer_length, m7))"

section \<open>The signature decoders\<close>

definition asn1_to_ecdsa_rs_sep ::
  "addr \<Rightarrow> nat \<Rightarrow> addr \<Rightarrow> nat option \<Rightarrow> addr \<Rightarrow> nat option \<Rightarrow> machine
     \<Rightarrow> bool \<times> nat option \<times> nat option \<times> machine" where
  "asn1_to_ecdsa_rs_sep asn1 asn1_len r r_len s s_len m =
     (case (r_len, s_len) of
        (Some r_cap, Some s_cap) \<Rightarrow>
          if asn1 = NULL \<or> r = NULL \<or> s = NULL then (False, r_len, s_len, m)
          else
            (case decode_asn1_uint asn1 asn1_len r r_cap m of (consumed_r, r_len', m1) \<Rightarrow>
               if consumed_r = 0 then (False, Some r_len', s_len, m1)
               else
                 let asn1_s = asn1 + consumed_r;
                     asn1_s_len = asn1_len - consumed_r
                 in (case decode_asn1_uint asn1_s asn1_s_len s s_cap m1
                     of (consumed_s, s_len', m2) \<Rightarrow>
                       if consumed_s = 0 then (False, Some r_len', Some s_len', m2)
                       else (True, Some r_len', Some s_len', m2)))
      | _ \<Rightarrow> (False, r_len, s_len, m))"

text \<open>
  \<^verbatim>\<open>asn1_to_ecdsa_rs\<close> compares the size \<^verbatim>\<open>rs_len\<close> with \<^verbatim>\<open>NULL\<close>: a length of 0 is
  refused with the null pointers. The two length cells are locals of the function and
  are dropped on return.
\<close>

definition asn1_to_ecdsa_rs :: "addr \<Rightarrow> nat \<Rightarrow> addr \<Rightarrow> nat \<Rightarrow> machine \<Rightarrow> bool \<times> machine" where
  "asn1_to_ecdsa_rs asn1 asn1_len rs rs_len m =
     (if asn1 = NULL \<or> rs = NULL \<or> rs_len = 0 then (False, m)
      else if rs_len mod 2 \<noteq> 0 then (False, m)
      else
        let component_length = rs_len div 2;
            r_len = component_length;
            s_len = component_length
        in (case asn1_to_ecdsa_rs_sep asn1 asn1_len rs (Some r_len)
                   (rs + component_length) (Some s_len) m
            of (ok, r_len', s_len', m') \<Rightarrow> (ok, m')))"

section \<open>The encoding on byte lists\<close>

text \<open>
  The claims speak of the value field of a TLV, of stuffing and of the width of a decoded
  integer. These notions are read off the source and fixed here on byte lists and on the
  bytes of a TLV in memory; the lemmas \<open>encode_der_integer_shape\<close>,
  \<open>decode_asn1_uint_reject\<close> and \<open>decode_asn1_uint_accept\<close> below prove that the code
  computes them.

  \<open>significant v\<close> is the loop of lines 81 to 85 on a list: the bytes of \<open>v\<close> that remain
  after skipping leading zero bytes, never skipping the final byte.
\<close>

fun significant :: "byte list \<Rightarrow> byte list" where
  "significant (x # y # ys) = (if x \<noteq> 0x00 then x # y # ys else significant (y # ys))"
| "significant xs = xs"

text \<open>
  \<open>stuffing v\<close> is the test of line 88: the number of stuffing bytes, 1 when the first
  remaining byte has its high bit set and 0 otherwise.
\<close>

definition stuffing :: "byte list \<Rightarrow> nat" where
  "stuffing v = (if hd (significant v) AND 0x80 \<noteq> 0 then 1 else 0)"

text \<open>
  The value field and the whole TLV that lines 108 to 114 write for \<open>v\<close>: the stuffing
  byte if any, then the remaining bytes; before them the tag and the length byte.
\<close>

definition der_value :: "byte list \<Rightarrow> byte list" where
  "der_value v = replicate (stuffing v) 0x00 @ significant v"

definition der_tlv :: "byte list \<Rightarrow> byte list" where
  "der_tlv v = [0x02, of_nat (length (der_value v))] @ der_value v"

text \<open>
  For a TLV that starts at \<open>asn1\<close>: the length its length byte declares, and the width of
  the integer once the stuffing step of the decoder (lines 185 to 190) has run.
\<close>

definition declared_length :: "machine \<Rightarrow> addr \<Rightarrow> nat" where
  "declared_length m asn1 = unat (mem m (asn1 + 1))"

definition integer_width :: "machine \<Rightarrow> addr \<Rightarrow> nat" where
  "integer_width m asn1 =
     (if 1 < declared_length m asn1 \<and> mem m (asn1 + 2) = 0x00
      then declared_length m asn1 - 1 else declared_length m asn1)"

text \<open>The conjunction of the decoder's checks, in the order of the source.\<close>

definition accepts :: "machine \<Rightarrow> addr \<Rightarrow> nat \<Rightarrow> nat \<Rightarrow> bool" where
  "accepts m asn1 asn1_len out_int_len \<longleftrightarrow>
     3 \<le> asn1_len \<and> mem m asn1 = 0x02 \<and> 0 < declared_length m asn1
     \<and> declared_length m asn1 \<le> 127 \<and> 2 + declared_length m asn1 \<le> asn1_len
     \<and> \<not> (1 < declared_length m asn1 \<and> mem m (asn1 + 2) = 0x00 \<and> mem m (asn1 + 3) = 0x00)
     \<and> integer_width m asn1 \<le> out_int_len"

section \<open>Example memories\<close>

text \<open>
  Concrete memories for the worked examples: \<open>with_bytes p bs f\<close> is the memory \<open>f\<close> with
  the bytes \<open>bs\<close> placed from address \<open>p\<close> on, \<open>fresh f\<close> the machine with memory \<open>f\<close>
  and empty logs. Bytes outside the placed buffers are \<open>0xAA\<close>, so that a stray read or a
  missing write shows.
\<close>

definition with_bytes :: "addr \<Rightarrow> byte list \<Rightarrow> (addr \<Rightarrow> byte) \<Rightarrow> addr \<Rightarrow> byte" where
  "with_bytes p bs f = (\<lambda>a. if p \<le> a \<and> a < p + length bs then bs ! (a - p) else f a)"

definition fresh :: "(addr \<Rightarrow> byte) \<Rightarrow> machine" where
  "fresh f = \<lparr>mem = f, rd_log = [], wr_log = []\<rparr>"

definition tlv_two_zeros :: machine where
  "tlv_two_zeros = fresh (with_bytes 100 [0x02, 0x03, 0x00, 0x00, 0x01] (\<lambda>_. 0xAA))"

definition tlv_redundant_stuffing :: machine where
  "tlv_redundant_stuffing = fresh (with_bytes 100 [0x02, 0x02, 0x00, 0x01] (\<lambda>_. 0xAA))"

definition raw_0080 :: machine where
  "raw_0080 = fresh (with_bytes 100 [0x00, 0x80] (\<lambda>_. 0xAA))"

definition tlv_stuffed_ff :: machine where
  "tlv_stuffed_ff = fresh (with_bytes 100 [0x02, 0x03, 0x00, 0xFF, 0x10] (\<lambda>_. 0xAA))"

definition raw_0000 :: machine where
  "raw_0000 = fresh (with_bytes 100 [0x00, 0x00] (\<lambda>_. 0xAA))"

definition sig_one_one :: machine where
  "sig_one_one = fresh (with_bytes 100 [0x02, 0x01, 0x01, 0x02, 0x01, 0x01] (\<lambda>_. 0xAA))"

definition raw_00008001 :: machine where
  "raw_00008001 = fresh (with_bytes 100 [0x00, 0x00, 0x80, 0x01] (\<lambda>_. 0xAA))"

definition rs_one_one :: machine where
  "rs_one_one = fresh (with_bytes 100 (replicate 31 0x00 @ [0x01])
                        (with_bytes 200 (replicate 31 0x00 @ [0x01]) (\<lambda>_. 0xAA)))"

definition tlv_7f01 :: machine where
  "tlv_7f01 = fresh (with_bytes 100 [0x02, 0x02, 0x7F, 0x01] (\<lambda>_. 0xAA))"

section \<open>Memory primitives\<close>

lemma load_simps [simp]:
  "fst (load p m) = mem m p"
  "mem (snd (load p m)) = mem m"
  "wr_log (snd (load p m)) = wr_log m"
  "rd_log (snd (load p m)) = rd_log m @ [p]"
  by (simp_all add: load_def)

lemma store_simps [simp]:
  "mem (store p b m) = (mem m)(p := b)"
  "wr_log (store p b m) = wr_log m @ [p]"
  "rd_log (store p b m) = rd_log m"
  by (simp_all add: store_def)

lemma memcpy_simps [simp]:
  "mem (memcpy dst src n m) a =
     (if dst \<le> a \<and> a < dst + n then mem m (src + (a - dst)) else mem m a)"
  "wr_log (memcpy dst src n m) = wr_log m @ [dst..<dst + n]"
  "rd_log (memcpy dst src n m) = rd_log m @ [src..<src + n]"
  by (simp_all add: memcpy_def)

lemma memset_simps [simp]:
  "mem (memset dst b n m) a = (if dst \<le> a \<and> a < dst + n then b else mem m a)"
  "wr_log (memset dst b n m) = wr_log m @ [dst..<dst + n]"
  "rd_log (memset dst b n m) = rd_log m"
  by (simp_all add: memset_def)

lemma bytes_at_length [simp]: "length (bytes_at m p n) = n"
  by (simp add: bytes_at_def)

lemma bytes_at_nth [simp]: "i < n \<Longrightarrow> bytes_at m p n ! i = mem m (p + i)"
  by (simp add: bytes_at_def)

lemma bytes_at_Cons: "0 < n \<Longrightarrow> bytes_at m p n = mem m p # bytes_at m (Suc p) (n - 1)"
  by (simp add: bytes_at_def upt_conv_Cons)

lemma bytes_at_cong: "(\<And>i. i < n \<Longrightarrow> mem m (p + i) = mem m' (q + i)) \<Longrightarrow> bytes_at m p n = bytes_at m' q n"
  by (rule nth_equalityI) simp_all

lemma bytes_at_drop: "drop k (bytes_at m p n) = bytes_at m (p + k) (n - k)"
  by (rule nth_equalityI) (simp_all add: add.assoc)

lemma bytes_at_append:
  "bytes_at m p (a + b) = bytes_at m p a @ bytes_at m (p + a) b"
  by (rule nth_equalityI) (auto simp: nth_append add.assoc)

lemma unat_length_byte: "n \<le> 127 \<Longrightarrow> unat (of_nat n :: byte) = n"
  by (simp add: unat_of_nat)

lemma high_bit_not_zero: "(b :: byte) AND 0x80 \<noteq> 0 \<Longrightarrow> b \<noteq> 0"
  by auto

section \<open>The value field on byte lists\<close>

lemma significant_not_Nil [simp]: "significant v = [] \<longleftrightarrow> v = []"
  by (induction v rule: significant.induct) auto

lemma significant_length_le: "length (significant v) \<le> length v"
  by (induction v rule: significant.induct) auto

lemma significant_padding:
  "replicate (length v - length (significant v)) 0x00 @ significant v = v"
proof (induction v rule: significant.induct)
  case (1 x y ys)
  show ?case
  proof (cases "x = 0")
    case True
    have "length (significant (y # ys)) \<le> length (y # ys)"
      by (rule significant_length_le)
    then have "length (x # y # ys) - length (significant (y # ys))
                 = Suc (length (y # ys) - length (significant (y # ys)))"
      by simp
    with True 1 show ?thesis by simp
  qed simp
qed simp_all

lemma significant_minimal:
  "v \<noteq> [] \<Longrightarrow> hd (significant v) \<noteq> 0x00 \<or> length (significant v) = 1"
  by (induction v rule: significant.induct) auto

lemma significant_all_zero:
  "v \<noteq> [] \<Longrightarrow> \<forall>b \<in> set v. b = 0x00 \<Longrightarrow> significant v = [0x00]"
  by (induction v rule: significant.induct) auto

lemma significant_zero_Cons: "xs \<noteq> [] \<Longrightarrow> significant (0x00 # xs) = significant xs"
  by (cases xs) simp_all

lemma significant_drop: "significant v = drop (length v - length (significant v)) v"
  using significant_padding [of v] by (metis append_eq_conv_conj length_replicate)

lemma significant_bytes_at:
  "significant (bytes_at m p n)
     = bytes_at m (p + (n - length (significant (bytes_at m p n))))
         (length (significant (bytes_at m p n)))"
proof -
  have "length (significant (bytes_at m p n)) \<le> n"
    using significant_length_le [of "bytes_at m p n"] by simp
  then show ?thesis
    using significant_drop [of "bytes_at m p n"] by (simp add: bytes_at_drop)
qed

lemma stuffing_le_1: "stuffing v \<le> 1"
  by (simp add: stuffing_def)

lemma der_value_length: "length (der_value v) = stuffing v + length (significant v)"
  by (simp add: der_value_def)

lemma der_tlv_length: "length (der_tlv v) = 2 + length (der_value v)"
  by (simp add: der_tlv_def)

lemma der_value_minimal:
  assumes "v \<noteq> []"
  shows "\<not> (2 \<le> length (der_value v) \<and> der_value v ! 0 = 0x00 \<and> der_value v ! 1 = 0x00)"
proof (cases "stuffing v = 1")
  case True
  then have "hd (significant v) AND 0x80 \<noteq> 0"
    by (simp add: stuffing_def split: if_splits)
  then have "hd (significant v) \<noteq> 0" by (rule high_bit_not_zero)
  moreover have "der_value v ! 1 = hd (significant v)"
    using True assms by (simp add: der_value_def hd_conv_nth)
  ultimately show ?thesis by simp
next
  case False
  then have "stuffing v = 0" by (simp add: stuffing_def split: if_splits)
  then have "der_value v = significant v" by (simp add: der_value_def)
  moreover have "significant v ! 0 = hd (significant v)"
    using assms by (simp add: hd_conv_nth)
  ultimately show ?thesis
    using significant_minimal [OF assms] by auto
qed

lemma der_value_all_zero:
  assumes "v \<noteq> []" and "\<forall>b \<in> set v. b = 0x00"
  shows "der_value v = [0x00]"
  using significant_all_zero [OF assms] by (simp add: der_value_def stuffing_def)

lemma der_value_accepted:
  assumes "v \<noteq> []" and "length (der_value v) \<le> 127"
  shows "0 < length (der_value v)"
    and "\<not> (1 < length (der_value v) \<and> der_value v ! 0 = 0x00 \<and> der_value v ! 1 = 0x00)"
    and "(if 1 < length (der_value v) \<and> der_value v ! 0 = 0x00
          then length (der_value v) - 1 else length (der_value v)) = length (significant v)"
proof -
  show "0 < length (der_value v)"
    using assms(1) by (simp add: der_value_length)
  show "\<not> (1 < length (der_value v) \<and> der_value v ! 0 = 0x00 \<and> der_value v ! 1 = 0x00)"
    using der_value_minimal [OF assms(1)] by auto
  show "(if 1 < length (der_value v) \<and> der_value v ! 0 = 0x00
          then length (der_value v) - 1 else length (der_value v)) = length (significant v)"
  proof (cases "stuffing v = 1")
    case True
    then show ?thesis
      using assms(1) by (simp add: der_value_def)
  next
    case False
    then have st: "stuffing v = 0" by (simp add: stuffing_def split: if_splits)
    then have dv: "der_value v = significant v" by (simp add: der_value_def)
    have "significant v ! 0 = hd (significant v)"
      using assms(1) by (simp add: hd_conv_nth)
    then show ?thesis
      using significant_minimal [OF assms(1)] by (auto simp: dv)
  qed
qed

section \<open>The loop of the encoder\<close>

lemma skip_zeros_step:
  "int c < int e - 1 \<Longrightarrow> mem m c = 0 \<Longrightarrow> skip_zeros c e m = skip_zeros (Suc c) e (snd (load c m))"
  by (subst skip_zeros.simps) (simp add: load_def)

lemma skip_zeros_break:
  "int c < int e - 1 \<Longrightarrow> mem m c \<noteq> 0 \<Longrightarrow> skip_zeros c e m = (c, snd (load c m))"
  by (subst skip_zeros.simps) (simp add: load_def)

lemma skip_zeros_exit:
  "\<not> int c < int e - 1 \<Longrightarrow> skip_zeros c e m = (c, m)"
  by (subst skip_zeros.simps) simp

lemma skip_zeros_cases [consumes 1, case_names step break exit]:
  assumes "skip_zeros c e m = (cur, m')"
  obtains "int c < int e - 1" "mem m c = 0" "skip_zeros (Suc c) e (snd (load c m)) = (cur, m')"
  | "int c < int e - 1" "mem m c \<noteq> 0" "cur = c" "m' = snd (load c m)"
  | "\<not> int c < int e - 1" "cur = c" "m' = m"
  using assms skip_zeros_step [of c e m] skip_zeros_break [of c e m] skip_zeros_exit [of c e m]
  by (cases "int c < int e - 1"; cases "mem m c = 0") auto

lemma skip_zeros_frame:
  "skip_zeros c e m = (cur, m') \<Longrightarrow> mem m' = mem m \<and> wr_log m' = wr_log m"
proof (induction c e m arbitrary: cur m' rule: skip_zeros.induct)
  case (1 c e m)
  from "1.prems" show ?case
  proof (cases rule: skip_zeros_cases)
    case step
    then show ?thesis
      using "1.IH" [of "mem m c" "snd (load c m)" cur m'] by (simp add: load_def)
  qed simp_all
qed

lemma skip_zeros_bounds:
  "c < e \<Longrightarrow> skip_zeros c e m = (cur, m') \<Longrightarrow> c \<le> cur \<and> cur < e"
proof (induction c e m arbitrary: cur m' rule: skip_zeros.induct)
  case (1 c e m)
  from "1.prems"(2) show ?case
  proof (cases rule: skip_zeros_cases)
    case step
    then show ?thesis
      using "1.IH" [of "mem m c" "snd (load c m)" cur m'] by (simp add: load_def)
  qed (use "1.prems"(1) in simp_all)
qed

lemma skip_zeros_reads:
  "skip_zeros c e m = (cur, m') \<Longrightarrow> \<exists>rs. rd_log m' = rd_log m @ rs \<and> set rs \<subseteq> {c..<e}"
proof (induction c e m arbitrary: cur m' rule: skip_zeros.induct)
  case (1 c e m)
  from "1.prems" show ?case
  proof (cases rule: skip_zeros_cases)
    case step
    then obtain rs where "rd_log m' = (rd_log m @ [c]) @ rs" "set rs \<subseteq> {Suc c..<e}"
      using "1.IH" [of "mem m c" "snd (load c m)" cur m'] by (auto simp: load_def)
    with step(1) have "rd_log m' = rd_log m @ (c # rs) \<and> set (c # rs) \<subseteq> {c..<e}"
      by auto
    then show ?thesis by blast
  next
    case break
    then have "rd_log m' = rd_log m @ [c] \<and> set [c] \<subseteq> {c..<e}" by simp
    then show ?thesis by blast
  next
    case exit
    then show ?thesis by simp
  qed
qed

lemma skip_zeros_machine:
  "skip_zeros c e m = (cur, m') \<Longrightarrow> \<exists>rs. m' = m\<lparr>rd_log := rd_log m @ rs\<rparr> \<and> set rs \<subseteq> {c..<e}"
proof -
  assume sk: "skip_zeros c e m = (cur, m')"
  then obtain rs where "rd_log m' = rd_log m @ rs" "set rs \<subseteq> {c..<e}"
    using skip_zeros_reads by blast
  moreover have "mem m' = mem m" "wr_log m' = wr_log m"
    using skip_zeros_frame [OF sk] by simp_all
  ultimately have "m' = m\<lparr>rd_log := rd_log m @ rs\<rparr> \<and> set rs \<subseteq> {c..<e}"
    by simp
  then show ?thesis by blast
qed

lemma skip_zeros_significant:
  "c < e \<Longrightarrow> skip_zeros c e m = (cur, m') \<Longrightarrow>
     bytes_at m cur (e - cur) = significant (bytes_at m c (e - c))"
proof (induction c e m arbitrary: cur m' rule: skip_zeros.induct)
  case (1 c e m)
  from "1.prems"(2) show ?case
  proof (cases rule: skip_zeros_cases)
    case step
    have two: "bytes_at m c (e - c) = mem m c # mem m (Suc c) # bytes_at m (Suc (Suc c)) (e - c - 2)"
      using step(1) by (simp add: bytes_at_Cons)
    have "bytes_at m (Suc c) (e - Suc c) = mem m (Suc c) # bytes_at m (Suc (Suc c)) (e - c - 2)"
      using step(1) by (simp add: bytes_at_Cons)
    moreover have "bytes_at (snd (load c m)) cur (e - cur)
                     = significant (bytes_at (snd (load c m)) (Suc c) (e - Suc c))"
      using "1.IH" [of "mem m c" "snd (load c m)" cur m'] step by (simp add: load_def)
    moreover have "bytes_at (snd (load c m)) = bytes_at m"
      by (simp add: bytes_at_def fun_eq_iff)
    ultimately show ?thesis using step(2) two by simp
  next
    case break
    have "bytes_at m c (e - c) = mem m c # mem m (Suc c) # bytes_at m (Suc (Suc c)) (e - c - 2)"
      using break(1) by (simp add: bytes_at_Cons)
    then show ?thesis using break by simp
  next
    case exit
    with "1.prems"(1) have "e - c = 1" by simp
    then have "bytes_at m c (e - c) = [mem m c]" by (simp add: bytes_at_Cons bytes_at_def)
    then show ?thesis using exit by simp
  qed
qed

lemma skip_zeros_der:
  assumes "0 < data_len" and "skip_zeros data (data + data_len) m = (cur, m1)"
  shows "significant (bytes_at m data data_len) = bytes_at m cur (data + data_len - cur)"
    and "hd (significant (bytes_at m data data_len)) = mem m cur"
    and "cur = data + (data_len - length (significant (bytes_at m data data_len)))"
proof -
  have b: "data \<le> cur" "cur < data + data_len"
    using skip_zeros_bounds [OF _ assms(2)] assms(1) by simp_all
  show s: "significant (bytes_at m data data_len) = bytes_at m cur (data + data_len - cur)"
    using skip_zeros_significant [OF _ assms(2)] assms(1) by simp
  have "bytes_at m cur (data + data_len - cur)
          = mem m cur # bytes_at m (Suc cur) (data + data_len - cur - 1)"
    using b by (intro bytes_at_Cons) simp
  then show "hd (significant (bytes_at m data data_len)) = mem m cur"
    by (simp only: s list.sel)
  show "cur = data + (data_len - length (significant (bytes_at m data data_len)))"
    using b by (simp add: s)
qed

section \<open>The integer encoder, characterised\<close>

lemmas source_constants =
  ASN1_DER_TAG_OFFSET_def ASN1_DER_LEN_OFFSET_def ASN1_DER_VAL_OFFSET_def
  DER_INTEGER_MAX_LEN_def DER_TAG_INTEGER_def DER_UINT_MASK_def

lemma encode_der_integer_unfold:
  assumes "0 < data_len" and "skip_zeros data (data + data_len) m = (cur_data, m1)"
  shows "encode_der_integer data data_len out_buf out_buf_len m =
     (let st = (if mem m cur_data AND 0x80 \<noteq> 0 then 1 else 0);
          wl = data + data_len - cur_data;
          m2 = snd (load cur_data m1)
      in if out_buf_len < 2 + st + wl \<or> 127 < st + wl then (0, m2)
         else (2 + st + wl,
               (if st = 1 then store (out_buf + 2) 0x00 else id)
                 (store (out_buf + 1) (of_nat (st + wl))
                    (store out_buf 0x02 (memcpy (out_buf + 2 + st) cur_data wl m2)))))"
proof -
  define wl where "wl = data + data_len - cur_data"
  have "cur_data < data + data_len"
    using skip_zeros_bounds [OF _ assms(2)] assms(1) by simp
  then have eq: "data + data_len = cur_data + wl" and "0 < wl"
    by (simp_all add: wl_def)
  have sk: "skip_zeros data (cur_data + wl) m = (cur_data, m1)"
    using assms(2) eq by simp
  have "mem m1 = mem m" using assms(2) by (simp add: skip_zeros_frame)
  then show ?thesis
    unfolding encode_der_integer_def eq
    using sk \<open>0 < data_len\<close> \<open>0 < wl\<close>
    by (auto simp: Let_def load_def ASN1_DER_TAG_OFFSET_def
        ASN1_DER_LEN_OFFSET_def ASN1_DER_VAL_OFFSET_def DER_INTEGER_MAX_LEN_def
        DER_TAG_INTEGER_def DER_UINT_MASK_def)
qed

lemma encode_der_integer_shape:
  assumes "0 < data_len"
  shows "\<exists>rs. set rs \<subseteq> {data..<data + data_len} \<and>
     encode_der_integer data data_len out_buf out_buf_len m =
       (let v = bytes_at m data data_len;
            m2 = m\<lparr>rd_log := rd_log m @ rs\<rparr>
        in if out_buf_len < length (der_tlv v) \<or> 127 < length (der_value v) then (0, m2)
           else (length (der_tlv v),
                 (if stuffing v = 1 then store (out_buf + 2) 0x00 else id)
                   (store (out_buf + 1) (of_nat (length (der_value v)))
                      (store out_buf 0x02
                         (memcpy (out_buf + 2 + stuffing v)
                            (data + (data_len - length (significant v)))
                            (length (significant v)) m2)))))"
proof -
  obtain cur m1 where sk: "skip_zeros data (data + data_len) m = (cur, m1)"
    by (cases "skip_zeros data (data + data_len) m")
  obtain rs where rs: "m1 = m\<lparr>rd_log := rd_log m @ rs\<rparr>" "set rs \<subseteq> {data..<data + data_len}"
    using skip_zeros_machine [OF sk] by blast
  let ?v = "bytes_at m data data_len"
  note der = skip_zeros_der [OF assms sk]
  have b: "data \<le> cur" "cur < data + data_len"
    using skip_zeros_bounds [OF _ sk] assms by simp_all
  have wl: "data + data_len - cur = length (significant ?v)"
    by (simp add: der(1))
  have st: "(if mem m cur AND 0x80 \<noteq> 0 then 1 else 0) = stuffing ?v"
    by (simp add: stuffing_def der(2))
  have m2: "snd (load cur m1) = m\<lparr>rd_log := rd_log m @ (rs @ [cur])\<rparr>"
    by (simp add: load_def rs(1))
  have "set (rs @ [cur]) \<subseteq> {data..<data + data_len}"
    using rs(2) b by simp
  moreover have "encode_der_integer data data_len out_buf out_buf_len m =
       (let v = bytes_at m data data_len;
            m2 = m\<lparr>rd_log := rd_log m @ (rs @ [cur])\<rparr>
        in if out_buf_len < length (der_tlv v) \<or> 127 < length (der_value v) then (0, m2)
           else (length (der_tlv v),
                 (if stuffing v = 1 then store (out_buf + 2) 0x00 else id)
                   (store (out_buf + 1) (of_nat (length (der_value v)))
                      (store out_buf 0x02
                         (memcpy (out_buf + 2 + stuffing v)
                            (data + (data_len - length (significant v)))
                            (length (significant v)) m2)))))"
    unfolding encode_der_integer_unfold [OF assms sk] Let_def st wl m2
      der_tlv_length der_value_length der(3) [symmetric]
    by (simp add: add.assoc)
  ultimately show ?thesis by blast
qed

lemma encode_der_integer_empty:
  "encode_der_integer data 0 out_buf out_buf_len m = (0, m)"
  by (simp add: encode_der_integer_def)

lemma encode_der_integer_ret:
  "fst (encode_der_integer data data_len out_buf out_buf_len m) =
     (if data_len = 0 \<or> out_buf_len < length (der_tlv (bytes_at m data data_len))
         \<or> 127 < length (der_value (bytes_at m data data_len))
      then 0 else length (der_tlv (bytes_at m data data_len)))"
proof (cases "data_len = 0")
  case True
  then show ?thesis by (simp add: encode_der_integer_empty)
next
  case False
  then show ?thesis
    using encode_der_integer_shape [of data_len data out_buf out_buf_len m]
    by (auto simp: Let_def)
qed

lemma encode_der_integer_le_capacity:
  "fst (encode_der_integer data data_len out_buf out_buf_len m) \<le> out_buf_len"
  by (simp add: encode_der_integer_ret)

lemma encode_der_integer_rd_log:
  "\<exists>rs. rd_log (snd (encode_der_integer data data_len out_buf out_buf_len m)) = rd_log m @ rs
     \<and> set rs \<subseteq> {data..<data + data_len}"
proof (cases "data_len = 0")
  case True
  then show ?thesis by (simp add: encode_der_integer_empty)
next
  case False
  then obtain rs where rs: "set rs \<subseteq> {data..<data + data_len}"
    and run: "encode_der_integer data data_len out_buf out_buf_len m =
       (let v = bytes_at m data data_len;
            m2 = m\<lparr>rd_log := rd_log m @ rs\<rparr>
        in if out_buf_len < length (der_tlv v) \<or> 127 < length (der_value v) then (0, m2)
           else (length (der_tlv v),
                 (if stuffing v = 1 then store (out_buf + 2) 0x00 else id)
                   (store (out_buf + 1) (of_nat (length (der_value v)))
                      (store out_buf 0x02
                         (memcpy (out_buf + 2 + stuffing v)
                            (data + (data_len - length (significant v)))
                            (length (significant v)) m2)))))"
    using encode_der_integer_shape [of data_len data out_buf out_buf_len m] by auto
  let ?v = "bytes_at m data data_len"
  let ?src = "data + (data_len - length (significant ?v))"
  have "length (significant ?v) \<le> data_len"
    using significant_length_le [of ?v] by simp
  then have "set (rs @ [?src..<?src + length (significant ?v)]) \<subseteq> {data..<data + data_len}"
    using rs by auto
  moreover have "rd_log (snd (encode_der_integer data data_len out_buf out_buf_len m))
           = rd_log m @ rs
         \<or> rd_log (snd (encode_der_integer data data_len out_buf out_buf_len m))
           = rd_log m @ (rs @ [?src..<?src + length (significant ?v)])"
    unfolding run by (simp add: Let_def)
  ultimately show ?thesis using rs by blast
qed

lemma encode_der_integer_wr_log:
  "wr_log (snd (encode_der_integer data data_len out_buf out_buf_len m)) =
     (let v = bytes_at m data data_len in
      if data_len = 0 \<or> out_buf_len < length (der_tlv v) \<or> 127 < length (der_value v)
      then wr_log m
      else wr_log m
             @ [out_buf + 2 + stuffing v..<out_buf + 2 + stuffing v + length (significant v)]
             @ [out_buf, out_buf + 1] @ (if stuffing v = 1 then [out_buf + 2] else []))"
proof (cases "data_len = 0")
  case True
  then show ?thesis by (simp add: encode_der_integer_empty)
next
  case False
  then show ?thesis
    using encode_der_integer_shape [of data_len data out_buf out_buf_len m]
    by (auto simp: Let_def)
qed

lemma encode_der_integer_mem:
  "mem (snd (encode_der_integer data data_len out_buf out_buf_len m)) =
     (let v = bytes_at m data data_len in
      if data_len = 0 \<or> out_buf_len < length (der_tlv v) \<or> 127 < length (der_value v)
      then mem m
      else mem ((if stuffing v = 1 then store (out_buf + 2) 0x00 else id)
                   (store (out_buf + 1) (of_nat (length (der_value v)))
                      (store out_buf 0x02
                         (memcpy (out_buf + 2 + stuffing v)
                            (data + (data_len - length (significant v)))
                            (length (significant v)) m)))))"
proof (cases "data_len = 0")
  case True
  then show ?thesis by (simp add: encode_der_integer_empty)
next
  case False
  then show ?thesis
    using encode_der_integer_shape [of data_len data out_buf out_buf_len m]
    by (auto simp: Let_def fun_eq_iff)
qed

lemma encode_der_integer_tlv:
  assumes "0 < data_len"
    and "length (der_tlv (bytes_at m data data_len)) \<le> out_buf_len"
    and "length (der_value (bytes_at m data data_len)) \<le> 127"
  shows "bytes_at (snd (encode_der_integer data data_len out_buf out_buf_len m)) out_buf
           (length (der_tlv (bytes_at m data data_len)))
         = der_tlv (bytes_at m data data_len)"
proof (rule nth_equalityI)
  let ?v = "bytes_at m data data_len"
  let ?m' = "snd (encode_der_integer data data_len out_buf out_buf_len m)"
  show "length (bytes_at ?m' out_buf (length (der_tlv ?v))) = length (der_tlv ?v)"
    by simp
  fix i assume "i < length (bytes_at ?m' out_buf (length (der_tlv ?v)))"
  then have i: "i < 2 + stuffing ?v + length (significant ?v)"
    by (simp add: der_tlv_length der_value_length)
  define n where "n = length (significant ?v)"
  define src where "src = data + (data_len - n)"
  have sig: "significant ?v = bytes_at m src n"
    unfolding src_def n_def by (rule significant_bytes_at)
  have mem': "mem ?m' = mem ((if stuffing ?v = 1 then store (out_buf + 2) 0x00 else id)
                   (store (out_buf + 1) (of_nat (length (der_value ?v)))
                      (store out_buf 0x02 (memcpy (out_buf + 2 + stuffing ?v) src n m))))"
    using assms by (simp add: encode_der_integer_mem Let_def src_def n_def)
  consider (tag) "i = 0" | (len) "i = 1" | (stuff) "i = 2" "stuffing ?v = 1"
    | (val) j where "i = 2 + stuffing ?v + j" "j < n"
  proof -
    have "i = 0 \<or> i = 1 \<or> (i = 2 \<and> stuffing ?v = 1)
        \<or> (i = 2 + stuffing ?v + (i - 2 - stuffing ?v) \<and> i - 2 - stuffing ?v < n)"
      using i stuffing_le_1 [of ?v] unfolding n_def by arith
    then show ?thesis using that by blast
  qed
  then have "mem ?m' (out_buf + i) = der_tlv ?v ! i"
  proof cases
    case tag
    then show ?thesis by (simp add: mem' der_tlv_def)
  next
    case len
    then show ?thesis by (simp add: mem' der_tlv_def)
  next
    case stuff
    then show ?thesis by (simp add: mem' der_tlv_def der_value_def)
  next
    case val
    have "der_tlv ?v ! i = significant ?v ! j"
      using val stuffing_le_1 [of ?v]
      by (simp add: der_tlv_def der_value_def nth_append nth_Cons')
    also have "\<dots> = mem m (src + j)"
      using val(2) by (simp add: sig)
    finally show ?thesis
      using val by (simp add: mem')
  qed
  moreover have "i < length (der_tlv ?v)"
    using i by (simp add: der_tlv_length der_value_length)
  ultimately show "bytes_at ?m' out_buf (length (der_tlv ?v)) ! i = der_tlv ?v ! i"
    by simp
qed

lemma encode_der_integer_frame:
  assumes "a < out_buf \<or> out_buf + fst (encode_der_integer data data_len out_buf out_buf_len m) \<le> a"
  shows "mem (snd (encode_der_integer data data_len out_buf out_buf_len m)) a = mem m a"
  using assms stuffing_le_1 [of "bytes_at m data data_len"]
  by (auto simp: encode_der_integer_mem encode_der_integer_ret Let_def
      der_tlv_length der_value_length)

lemma encode_der_integer_success:
  assumes "encode_der_integer data data_len out_buf out_buf_len m = (n, m')" and "n \<noteq> 0"
  shows "0 < data_len" and "length (der_tlv (bytes_at m data data_len)) \<le> out_buf_len"
    and "length (der_value (bytes_at m data data_len)) \<le> 127"
    and "n = length (der_tlv (bytes_at m data data_len))"
    and "bytes_at m' out_buf n = der_tlv (bytes_at m data data_len)"
proof -
  let ?v = "bytes_at m data data_len"
  have proj: "n = fst (encode_der_integer data data_len out_buf out_buf_len m)"
    "m' = snd (encode_der_integer data data_len out_buf out_buf_len m)"
    using assms(1) by simp_all
  have ok: "\<not> (data_len = 0 \<or> out_buf_len < length (der_tlv ?v) \<or> 127 < length (der_value ?v))"
    using assms(2) unfolding proj encode_der_integer_ret by (simp split: if_splits)
  then show c: "0 < data_len" "length (der_tlv ?v) \<le> out_buf_len" "length (der_value ?v) \<le> 127"
    by simp_all
  show n: "n = length (der_tlv ?v)"
    unfolding proj encode_der_integer_ret using ok by simp
  show "bytes_at m' out_buf n = der_tlv ?v"
    unfolding n unfolding proj by (rule encode_der_integer_tlv [OF c])
qed

section \<open>The integer decoder, characterised\<close>

lemma strip_stuffing_eq:
  "strip_stuffing l p m =
     (if 1 < unat l then
        (if mem m p = 0 then (mem m (p + 1) = 0, l - 1, p + 1, m\<lparr>rd_log := rd_log m @ [p, p + 1]\<rparr>)
         else (False, l, p, m\<lparr>rd_log := rd_log m @ [p, p]\<rparr>))
      else (False, l, p, m))"
  by (simp add: strip_stuffing_def load_def Let_def)

lemma decode_asn1_uint_reject:
  assumes "\<not> accepts m asn1 asn1_len out_int_len"
  shows "\<exists>rs. set rs \<subseteq> {asn1..<asn1 + asn1_len} \<and>
           decode_asn1_uint asn1 asn1_len out_int out_int_len m
             = (0, out_int_len, m\<lparr>rd_log := rd_log m @ rs\<rparr>)"
proof -
  define L where "L = unat (mem m (asn1 + 1))"
  have L: "unat (mem m (Suc asn1)) = L" "mem m (Suc asn1) = 0 \<longleftrightarrow> L = 0"
    "uint (mem m (Suc asn1)) = int L"
    by (simp_all add: L_def unat_eq_0)
  have a3: "asn1 + 3 = Suc (Suc (Suc asn1))" by simp
  note defs = decode_asn1_uint_def strip_stuffing_eq Let_def load_def source_constants
  have "asn1_len < 3 \<or> mem m asn1 \<noteq> 0x02 \<or> L = 0 \<or> 127 < L \<or> asn1_len < 2 + L
      \<or> (1 < L \<and> mem m (asn1 + 2) = 0x00 \<and> mem m (asn1 + 3) = 0x00)
      \<or> (1 < L \<and> mem m (asn1 + 2) = 0x00 \<and> out_int_len < L - 1)
      \<or> (\<not> (1 < L \<and> mem m (asn1 + 2) = 0x00) \<and> out_int_len < L)"
    using assms unfolding accepts_def integer_width_def declared_length_def L_def [symmetric]
    by (auto simp: not_le not_less split: if_splits)
  then consider (short) "asn1_len < 3"
    | (tag) "\<not> asn1_len < 3" "mem m asn1 \<noteq> 0x02"
    | (zero) "\<not> asn1_len < 3" "mem m asn1 = 0x02" "L = 0"
    | (long) "\<not> asn1_len < 3" "mem m asn1 = 0x02" "127 < L"
    | (trunc) "\<not> asn1_len < 3" "mem m asn1 = 0x02" "\<not> L = 0" "\<not> 127 < L" "asn1_len < 2 + L"
    | (twozero) "\<not> asn1_len < 3" "mem m asn1 = 0x02" "1 < L" "\<not> 127 < L" "\<not> asn1_len < 2 + L"
        "mem m (asn1 + 2) = 0x00" "mem m (asn1 + 3) = 0x00"
    | (wide1) "\<not> asn1_len < 3" "mem m asn1 = 0x02" "1 < L" "\<not> 127 < L" "\<not> asn1_len < 2 + L"
        "mem m (asn1 + 2) = 0x00" "\<not> mem m (asn1 + 3) = 0x00" "out_int_len < L - 1"
    | (wide2) "\<not> asn1_len < 3" "mem m asn1 = 0x02" "1 < L" "\<not> 127 < L" "\<not> asn1_len < 2 + L"
        "\<not> mem m (asn1 + 2) = 0x00" "out_int_len < L"
    | (wide3) "\<not> asn1_len < 3" "mem m asn1 = 0x02" "\<not> L = 0" "\<not> 127 < L"
        "\<not> asn1_len < 2 + L" "\<not> 1 < L" "out_int_len < L"
    by blast
  then show ?thesis
  proof cases
    case short
    then have "decode_asn1_uint asn1 asn1_len out_int out_int_len m
                 = (0, out_int_len, m\<lparr>rd_log := rd_log m @ []\<rparr>)"
      by (simp add: defs)
    then show ?thesis by (intro exI [of _ "[]"]) simp
  next
    case tag
    then have "decode_asn1_uint asn1 asn1_len out_int out_int_len m
                 = (0, out_int_len, m\<lparr>rd_log := rd_log m @ [asn1]\<rparr>)"
      by (simp add: defs)
    then show ?thesis using tag by (intro exI [of _ "[asn1]"]) simp
  next
    case zero
    then have "decode_asn1_uint asn1 asn1_len out_int out_int_len m
                 = (0, out_int_len, m\<lparr>rd_log := rd_log m @ [asn1, asn1 + 1]\<rparr>)"
      by (simp add: defs L)
    then show ?thesis using zero by (intro exI [of _ "[asn1, asn1 + 1]"]) simp
  next
    case long
    then have "decode_asn1_uint asn1 asn1_len out_int out_int_len m
                 = (0, out_int_len, m\<lparr>rd_log := rd_log m @ [asn1, asn1 + 1, asn1 + 1]\<rparr>)"
      by (simp add: defs L)
    then show ?thesis using long by (intro exI [of _ "[asn1, asn1 + 1, asn1 + 1]"]) simp
  next
    case trunc
    then have "decode_asn1_uint asn1 asn1_len out_int out_int_len m
                 = (0, out_int_len, m\<lparr>rd_log := rd_log m @ [asn1, asn1 + 1, asn1 + 1, asn1 + 1]\<rparr>)"
      by (simp add: defs L)
    then show ?thesis using trunc
      by (intro exI [of _ "[asn1, asn1 + 1, asn1 + 1, asn1 + 1]"]) simp
  next
    case twozero
    then have "decode_asn1_uint asn1 asn1_len out_int out_int_len m
                 = (0, out_int_len,
                    m\<lparr>rd_log := rd_log m @ [asn1, asn1 + 1, asn1 + 1, asn1 + 1, asn1 + 2, asn1 + 3]\<rparr>)"
      by (simp add: defs L a3)
    then show ?thesis using twozero
      by (intro exI [of _ "[asn1, asn1 + 1, asn1 + 1, asn1 + 1, asn1 + 2, asn1 + 3]"]) simp
  next
    case wide1
    then have "mem m (Suc asn1) \<noteq> 0" using L by simp
    then have "unat (mem m (Suc asn1) - 1) = L - 1" using L by (simp add: unat_minus_one)
    with wide1 have "decode_asn1_uint asn1 asn1_len out_int out_int_len m
                 = (0, out_int_len,
                    m\<lparr>rd_log := rd_log m @ [asn1, asn1 + 1, asn1 + 1, asn1 + 1, asn1 + 2, asn1 + 3]\<rparr>)"
      by (simp add: defs L a3)
    then show ?thesis using wide1
      by (intro exI [of _ "[asn1, asn1 + 1, asn1 + 1, asn1 + 1, asn1 + 2, asn1 + 3]"]) simp
  next
    case wide2
    then have "decode_asn1_uint asn1 asn1_len out_int out_int_len m
                 = (0, out_int_len,
                    m\<lparr>rd_log := rd_log m @ [asn1, asn1 + 1, asn1 + 1, asn1 + 1, asn1 + 2, asn1 + 2]\<rparr>)"
      by (simp add: defs L a3)
    then show ?thesis using wide2
      by (intro exI [of _ "[asn1, asn1 + 1, asn1 + 1, asn1 + 1, asn1 + 2, asn1 + 2]"]) simp
  next
    case wide3
    then have "decode_asn1_uint asn1 asn1_len out_int out_int_len m
                 = (0, out_int_len, m\<lparr>rd_log := rd_log m @ [asn1, asn1 + 1, asn1 + 1, asn1 + 1]\<rparr>)"
      by (simp add: defs L a3)
    then show ?thesis using wide3
      by (intro exI [of _ "[asn1, asn1 + 1, asn1 + 1, asn1 + 1]"]) simp
  qed
qed

lemma decode_asn1_uint_accept:
  assumes "accepts m asn1 asn1_len out_int_len"
  shows "\<exists>rs. set rs \<subseteq> {asn1..<asn1 + asn1_len} \<and>
           decode_asn1_uint asn1 asn1_len out_int out_int_len m
             = (2 + declared_length m asn1, integer_width m asn1,
                memcpy (out_int + (out_int_len - integer_width m asn1))
                  (asn1 + 2 + (declared_length m asn1 - integer_width m asn1))
                  (integer_width m asn1)
                  (memset out_int 0x00 (out_int_len - integer_width m asn1)
                     (m\<lparr>rd_log := rd_log m @ rs\<rparr>)))"
proof -
  define L where "L = unat (mem m (asn1 + 1))"
  have L: "unat (mem m (Suc asn1)) = L" "mem m (Suc asn1) = 0 \<longleftrightarrow> L = 0"
    "uint (mem m (Suc asn1)) = int L"
    by (simp_all add: L_def unat_eq_0)
  have a3: "asn1 + 3 = Suc (Suc (Suc asn1))" by simp
  note defs = decode_asn1_uint_def strip_stuffing_eq Let_def load_def source_constants
  have checks: "\<not> asn1_len < 3" "mem m asn1 = 0x02" "\<not> L = 0" "\<not> 127 < L" "\<not> asn1_len < 2 + L"
    using assms unfolding accepts_def declared_length_def L_def [symmetric] by simp_all
  consider (single) "\<not> 1 < L" "\<not> out_int_len < L"
    | (plain) "1 < L" "\<not> mem m (asn1 + 2) = 0x00" "\<not> out_int_len < L"
    | (stuffed) "1 < L" "mem m (asn1 + 2) = 0x00" "\<not> mem m (asn1 + 3) = 0x00"
        "\<not> out_int_len < L - 1"
    using assms unfolding accepts_def integer_width_def declared_length_def L_def [symmetric]
    by (cases "1 < L"; cases "mem m (asn1 + 2) = 0x00") (simp_all add: not_less)
  then show ?thesis
  proof cases
    case single
    have "integer_width m asn1 = L" "declared_length m asn1 = L"
      using single by (simp_all add: integer_width_def declared_length_def L_def)
    moreover have "decode_asn1_uint asn1 asn1_len out_int out_int_len m
        = (2 + L, L, memcpy (out_int + (out_int_len - L)) (asn1 + 2 + (L - L)) L
             (memset out_int 0x00 (out_int_len - L)
                (m\<lparr>rd_log := rd_log m @ [asn1, asn1 + 1, asn1 + 1, asn1 + 1]\<rparr>)))"
      using checks single by (simp add: defs L)
    ultimately show ?thesis using checks
      by (intro exI [of _ "[asn1, asn1 + 1, asn1 + 1, asn1 + 1]"]) simp
  next
    case plain
    have "integer_width m asn1 = L" "declared_length m asn1 = L"
      using plain by (simp_all add: integer_width_def declared_length_def L_def)
    moreover have "decode_asn1_uint asn1 asn1_len out_int out_int_len m
        = (2 + L, L, memcpy (out_int + (out_int_len - L)) (asn1 + 2 + (L - L)) L
             (memset out_int 0x00 (out_int_len - L)
                (m\<lparr>rd_log := rd_log m
                     @ [asn1, asn1 + 1, asn1 + 1, asn1 + 1, asn1 + 2, asn1 + 2]\<rparr>)))"
      using checks plain by (simp add: defs L)
    ultimately show ?thesis using checks plain
      by (intro exI [of _ "[asn1, asn1 + 1, asn1 + 1, asn1 + 1, asn1 + 2, asn1 + 2]"]) simp
  next
    case stuffed
    have w: "integer_width m asn1 = L - 1" "declared_length m asn1 = L"
      using stuffed by (simp_all add: integer_width_def declared_length_def L_def)
    have "mem m (Suc asn1) \<noteq> 0" using L checks by simp
    then have "unat (mem m (Suc asn1) - 1) = L - 1" using L by (simp add: unat_minus_one)
    with checks stuffed have "decode_asn1_uint asn1 asn1_len out_int out_int_len m
        = (2 + L, L - 1, memcpy (out_int + (out_int_len - (L - 1))) (asn1 + 2 + (L - (L - 1))) (L - 1)
             (memset out_int 0x00 (out_int_len - (L - 1))
                (m\<lparr>rd_log := rd_log m
                     @ [asn1, asn1 + 1, asn1 + 1, asn1 + 1, asn1 + 2, asn1 + 3]\<rparr>)))"
      by (simp add: defs L a3)
    with w show ?thesis using checks stuffed
      by (intro exI [of _ "[asn1, asn1 + 1, asn1 + 1, asn1 + 1, asn1 + 2, asn1 + 3]"]) simp
  qed
qed

lemma decode_asn1_uint_ret:
  "fst (decode_asn1_uint asn1 asn1_len out_int out_int_len m) =
     (if accepts m asn1 asn1_len out_int_len then 2 + declared_length m asn1 else 0)"
  using decode_asn1_uint_accept [of m asn1 asn1_len out_int_len out_int]
    decode_asn1_uint_reject [of m asn1 asn1_len out_int_len out_int]
  by auto

lemma decode_asn1_uint_le_input:
  "fst (decode_asn1_uint asn1 asn1_len out_int out_int_len m) \<le> asn1_len"
  by (simp add: decode_asn1_uint_ret accepts_def)

lemma decode_asn1_uint_len:
  "fst (snd (decode_asn1_uint asn1 asn1_len out_int out_int_len m)) =
     (if accepts m asn1 asn1_len out_int_len then integer_width m asn1 else out_int_len)"
  using decode_asn1_uint_accept [of m asn1 asn1_len out_int_len out_int]
    decode_asn1_uint_reject [of m asn1 asn1_len out_int_len out_int]
  by auto

lemma decode_asn1_uint_mem:
  "mem (snd (snd (decode_asn1_uint asn1 asn1_len out_int out_int_len m))) =
     (if accepts m asn1 asn1_len out_int_len
      then mem (memcpy (out_int + (out_int_len - integer_width m asn1))
                  (asn1 + 2 + (declared_length m asn1 - integer_width m asn1))
                  (integer_width m asn1)
                  (memset out_int 0x00 (out_int_len - integer_width m asn1) m))
      else mem m)"
proof (cases "accepts m asn1 asn1_len out_int_len")
  case True
  then show ?thesis
    using decode_asn1_uint_accept [of m asn1 asn1_len out_int_len out_int]
    by (auto simp: fun_eq_iff)
next
  case False
  then show ?thesis
    using decode_asn1_uint_reject [of m asn1 asn1_len out_int_len out_int] by auto
qed

lemma decode_asn1_uint_wr_log:
  "wr_log (snd (snd (decode_asn1_uint asn1 asn1_len out_int out_int_len m))) =
     (if accepts m asn1 asn1_len out_int_len
      then wr_log m @ [out_int..<out_int + (out_int_len - integer_width m asn1)]
             @ [out_int + (out_int_len - integer_width m asn1)..<out_int + out_int_len]
      else wr_log m)"
proof (cases "accepts m asn1 asn1_len out_int_len")
  case True
  then have "integer_width m asn1 \<le> out_int_len" by (simp add: accepts_def)
  then show ?thesis
    using True decode_asn1_uint_accept [of m asn1 asn1_len out_int_len out_int]
    by auto
next
  case False
  then show ?thesis
    using decode_asn1_uint_reject [of m asn1 asn1_len out_int_len out_int] by auto
qed

lemma decode_asn1_uint_rd_log:
  "\<exists>rs. rd_log (snd (snd (decode_asn1_uint asn1 asn1_len out_int out_int_len m))) = rd_log m @ rs
     \<and> set rs \<subseteq> {asn1..<asn1 + asn1_len}"
proof (cases "accepts m asn1 asn1_len out_int_len")
  case True
  then obtain rs where rs: "set rs \<subseteq> {asn1..<asn1 + asn1_len}"
    "rd_log (snd (snd (decode_asn1_uint asn1 asn1_len out_int out_int_len m)))
       = rd_log m @ rs
           @ [asn1 + 2 + (declared_length m asn1 - integer_width m asn1)..<
              asn1 + 2 + (declared_length m asn1 - integer_width m asn1) + integer_width m asn1]"
    using decode_asn1_uint_accept [of m asn1 asn1_len out_int_len out_int] by auto
  have "integer_width m asn1 \<le> declared_length m asn1"
    by (simp add: integer_width_def)
  moreover have "2 + declared_length m asn1 \<le> asn1_len"
    using True by (simp add: accepts_def)
  ultimately have "set (rs @ [asn1 + 2 + (declared_length m asn1 - integer_width m asn1)..<
              asn1 + 2 + (declared_length m asn1 - integer_width m asn1) + integer_width m asn1])
        \<subseteq> {asn1..<asn1 + asn1_len}"
    using rs(1) by auto
  with rs(2) show ?thesis by (metis append.assoc)
next
  case False
  then show ?thesis
    using decode_asn1_uint_reject [of m asn1 asn1_len out_int_len out_int] by auto
qed

lemma decode_asn1_uint_no_capacity:
  "decode_asn1_uint asn1 asn1_len out_int 0 m
     = (0, 0, snd (snd (decode_asn1_uint asn1 asn1_len out_int 0 m)))"
proof -
  have "\<not> accepts m asn1 asn1_len 0"
    by (auto simp: accepts_def integer_width_def)
  then have "fst (decode_asn1_uint asn1 asn1_len out_int 0 m) = 0"
    and "fst (snd (decode_asn1_uint asn1 asn1_len out_int 0 m)) = 0"
    by (simp_all add: decode_asn1_uint_ret decode_asn1_uint_len)
  then show ?thesis
    by (metis prod.collapse)
qed

lemma decode_asn1_uint_no_capacity_frame:
  "mem (snd (snd (decode_asn1_uint asn1 asn1_len out_int 0 m))) = mem m"
  "wr_log (snd (snd (decode_asn1_uint asn1 asn1_len out_int 0 m))) = wr_log m"
proof -
  have "\<not> accepts m asn1 asn1_len 0"
    by (auto simp: accepts_def integer_width_def)
  then show "mem (snd (snd (decode_asn1_uint asn1 asn1_len out_int 0 m))) = mem m"
    "wr_log (snd (snd (decode_asn1_uint asn1 asn1_len out_int 0 m))) = wr_log m"
    by (simp_all add: decode_asn1_uint_mem decode_asn1_uint_wr_log)
qed

lemma decode_asn1_uint_success:
  assumes "decode_asn1_uint asn1 asn1_len out_int c m = (ret, n, m')"
    and "ret \<noteq> 0"
    and "disjoint asn1 asn1_len out_int c"
  shows "n = integer_width m asn1 \<and> n \<le> c
         \<and> bytes_at m' out_int (c - n) = replicate (c - n) 0x00
         \<and> bytes_at m' (out_int + (c - n)) n
             = bytes_at m (asn1 + 2 + (unat (mem m (asn1 + 1)) - n)) n"
proof -
  have "fst (decode_asn1_uint asn1 asn1_len out_int c m) \<noteq> 0"
    using assms(1,2) by simp
  then have acc: "accepts m asn1 asn1_len c"
    by (simp add: decode_asn1_uint_ret split: if_splits)
  have proj: "n = fst (snd (decode_asn1_uint asn1 asn1_len out_int c m))"
    "m' = snd (snd (decode_asn1_uint asn1 asn1_len out_int c m))"
    using assms(1) by simp_all
  let ?L = "declared_length m asn1"
  have n: "n = integer_width m asn1"
    unfolding proj using acc by (simp add: decode_asn1_uint_len)
  have le: "n \<le> c" "n \<le> ?L" "2 + ?L \<le> asn1_len"
    using acc unfolding n by (simp_all add: accepts_def integer_width_def)
  have mem': "mem m' = mem (memcpy (out_int + (c - n)) (asn1 + 2 + (?L - n)) n
                              (memset out_int 0x00 (c - n) m))"
    unfolding proj(2) using acc by (simp add: decode_asn1_uint_mem n)
  have pad: "bytes_at m' out_int (c - n) = replicate (c - n) 0x00"
  proof (rule nth_equalityI)
    fix i assume "i < length (bytes_at m' out_int (c - n))"
    then have i: "i < c - n" by simp
    then have "mem m' (out_int + i) = 0x00"
      unfolding mem' memcpy_simps memset_simps by auto
    with i show "bytes_at m' out_int (c - n) ! i = replicate (c - n) 0x00 ! i"
      by simp
  qed simp
  have "bytes_at m' (out_int + (c - n)) n = bytes_at m (asn1 + 2 + (?L - n)) n"
  proof (rule bytes_at_cong)
    fix i assume "i < n"
    then have "\<not> (out_int \<le> asn1 + 2 + (?L - n) + i \<and> asn1 + 2 + (?L - n) + i < out_int + (c - n))"
      using assms(3) le by (auto simp: disjoint_def)
    then show "mem m' (out_int + (c - n) + i) = mem m (asn1 + 2 + (?L - n) + i)"
      using \<open>i < n\<close> unfolding mem' memcpy_simps memset_simps by auto
  qed
  then show ?thesis
    using n le(1) pad by (simp add: declared_length_def)
qed

section \<open>Evaluation on concrete memories\<close>

lemmas run_defs =
  fresh_def with_bytes_def decode_asn1_uint_def strip_stuffing_def encode_der_integer_def
  skip_zeros.simps load_def store_def memcpy_def memset_def bytes_at_def Let_def
  source_constants NULL_def

text \<open>
  Why the theorems about decoded contents ask for an output buffer that does not overlap
  the input: the padding is written before the value bytes are copied, so an output buffer
  that starts inside the TLV loses them. Decoding \<^verbatim>\<open>02 02 7F 01\<close> with the output
  buffer placed on its value field succeeds and yields zeros.
\<close>

lemma decode_asn1_uint_in_place:
  "fst (decode_asn1_uint 100 4 102 4 tlv_7f01) = 4
   \<and> fst (snd (decode_asn1_uint 100 4 102 4 tlv_7f01)) = 2
   \<and> bytes_at (snd (snd (decode_asn1_uint 100 4 102 4 tlv_7f01))) 102 4
       = [0x00, 0x00, 0x00, 0x00]"
  by (simp add: tlv_7f01_def run_defs upt_rec)

section \<open>The claims\<close>

text \<open>
  Claim C1. For every width \<open>w\<close> of at least 1 and every \<open>w\<close>-byte big-endian unsigned
  integer \<open>v\<close> whose minimal encoding has a value field of at most 127 bytes, encoding \<open>v\<close>
  with \<^verbatim>\<open>encode_der_integer\<close> into a buffer that has room for the TLV succeeds, and
  decoding the TLV produced with \<^verbatim>\<open>decode_asn1_uint\<close> into an output buffer of capacity
  \<open>w\<close> succeeds, consumes the whole TLV and leaves exactly the original \<open>w\<close> bytes in
  the output buffer, the leading zeros restored by the padding. The three buffers are
  buffers of the caller that do not overlap.
\<close>

theorem encode_decode_roundtrip:
  assumes "1 \<le> w" and "v = bytes_at m data w"
    and "length (der_value v) \<le> 127" and "length (der_tlv v) \<le> capacity"
    and "disjoint data w tlv capacity" and "disjoint tlv capacity out w"
    and "encode_der_integer data w tlv capacity m = (n, m1)"
    and "decode_asn1_uint tlv n out w m1 = (ret, len', m2)"
  shows "n = length (der_tlv v) \<and> n \<noteq> 0 \<and> ret = n \<and> bytes_at m2 out w = v"
proof -
  have w: "0 < w" using assms(1) by simp
  have vne: "v \<noteq> []"
    using w assms(2) by (metis bytes_at_length length_0_conv less_numeral_extra(3))
  let ?L = "length (der_value v)"
  let ?k = "length (significant v)"
  have n: "n = length (der_tlv v)"
    using arg_cong [OF assms(7), of fst] assms(3,4) w
    by (simp add: encode_der_integer_ret assms(2) [symmetric])
  have n2: "n = 2 + ?L" using n by (simp add: der_tlv_length)
  have m1: "m1 = snd (encode_der_integer data w tlv capacity m)"
    using assms(7) by simp
  have tlv: "bytes_at m1 tlv n = [0x02, of_nat ?L] @ der_value v"
    unfolding m1 n assms(2)
    using encode_der_integer_tlv [OF w, of m data capacity tlv] assms(3,4)
    by (simp add: assms(2) [symmetric] der_tlv_def)
  have byte: "mem m1 (tlv + i) = ([0x02, of_nat ?L] @ der_value v) ! i" if "i < n" for i
    using that bytes_at_nth [of i n m1 tlv] by (simp only: tlv)
  have tag: "mem m1 tlv = 0x02" using byte [of 0] n2 by simp
  have "mem m1 (tlv + 1) = of_nat ?L" using byte [of 1] n2 by simp
  then have L: "declared_length m1 tlv = ?L"
    using assms(3) by (simp add: declared_length_def unat_length_byte)
  have val: "mem m1 (tlv + 2 + j) = der_value v ! j" if "j < ?L" for j
    using byte [of "2 + j"] that n2 by (simp add: add.assoc)
  note dv = der_value_accepted [OF vne assms(3)]
  have b2: "mem m1 (tlv + 2) = der_value v ! 0"
    using val [of 0] dv(1) by simp
  have b3: "mem m1 (tlv + 3) = der_value v ! 1" if "1 < ?L"
    using val [of 1] that by (simp add: numeral_3_eq_3)
  have width: "integer_width m1 tlv = ?k"
    unfolding integer_width_def L b2 by (rule dv(3))
  have kw: "?k \<le> w"
    using significant_length_le [of v] assms(2) by simp
  have c1: "3 \<le> n" using n2 dv(1) by linarith
  have c5: "2 + ?L \<le> n" using n2 by simp
  have c6: "\<not> (1 < ?L \<and> mem m1 (tlv + 2) = 0x00 \<and> mem m1 (tlv + 3) = 0x00)"
    using dv(2) b2 b3 by metis
  have acc: "accepts m1 tlv n w"
    unfolding accepts_def L width using c1 tag dv(1) assms(3) c5 c6 kw by blast
  have ret: "ret = n"
    using arg_cong [OF assms(8), of fst] acc by (simp add: decode_asn1_uint_ret L n2)
  have "ret \<noteq> 0" using ret n2 by simp
  have dj: "disjoint tlv n out w"
    using assms(4,6) n by (auto simp: disjoint_def)
  note out = decode_asn1_uint_success [OF assms(8) \<open>ret \<noteq> 0\<close> dj]
  have len': "len' = ?k"
    using out width by simp
  have st: "?L - ?k = stuffing v"
    by (simp add: der_value_length)
  have "bytes_at m1 (tlv + 2 + (?L - ?k)) ?k = significant v"
  proof (rule nth_equalityI)
    fix j assume "j < length (bytes_at m1 (tlv + 2 + (?L - ?k)) ?k)"
    then have j: "j < ?k" by simp
    then have "mem m1 (tlv + 2 + (stuffing v + j)) = der_value v ! (stuffing v + j)"
      by (intro val) (simp add: der_value_length)
    also have "\<dots> = significant v ! j"
      by (simp add: der_value_def nth_append)
    finally show "bytes_at m1 (tlv + 2 + (?L - ?k)) ?k ! j = significant v ! j"
      using j by (simp add: st add.assoc)
  qed simp
  moreover have uL: "unat (mem m1 (tlv + 1)) = ?L"
    using L by (simp only: declared_length_def)
  have "bytes_at m2 (out + (w - len')) len'
          = bytes_at m1 (tlv + 2 + (unat (mem m1 (tlv + 1)) - len')) len'"
    using out by blast
  then have "bytes_at m2 (out + (w - ?k)) ?k = bytes_at m1 (tlv + 2 + (?L - ?k)) ?k"
    unfolding len' uL .
  ultimately have tail: "bytes_at m2 (out + (w - ?k)) ?k = significant v"
    by (simp only:)
  have "bytes_at m2 out (w - len') = replicate (w - len') 0x00"
    using out by blast
  then have head: "bytes_at m2 out (w - ?k) = replicate (w - ?k) 0x00"
    unfolding len' .
  have "bytes_at m2 out w = bytes_at m2 out ((w - ?k) + ?k)"
    using kw by simp
  also have "\<dots> = replicate (w - ?k) 0x00 @ significant v"
    unfolding bytes_at_append head tail ..
  also have "\<dots> = v"
    using significant_padding [of v] assms(2) by simp
  finally have "bytes_at m2 out w = v" .
  moreover have "n \<noteq> 0" using n2 by simp
  ultimately show ?thesis
    using n ret by blast
qed

theorem encode_decode_roundtrip_witness:
  "(1::nat) \<le> 4 \<and> bytes_at raw_00008001 100 4 = [0x00, 0x00, 0x80, 0x01]
   \<and> length (der_value [0x00, 0x00, 0x80, 0x01]) \<le> 127
   \<and> length (der_tlv [0x00, 0x00, 0x80, 0x01]) \<le> 8
   \<and> disjoint 100 4 300 8 \<and> disjoint 300 8 200 4
   \<and> fst (encode_der_integer 100 4 300 8 raw_00008001) = 5
   \<and> fst (decode_asn1_uint 300 (fst (encode_der_integer 100 4 300 8 raw_00008001)) 200 4
             (snd (encode_der_integer 100 4 300 8 raw_00008001))) = 5
   \<and> bytes_at (snd (snd (decode_asn1_uint 300
                (fst (encode_der_integer 100 4 300 8 raw_00008001)) 200 4
                (snd (encode_der_integer 100 4 300 8 raw_00008001))))) 200 4
       = [0x00, 0x00, 0x80, 0x01]"
proof -
  let ?e = "encode_der_integer 100 4 300 8 raw_00008001"
  let ?d = "decode_asn1_uint 300 (fst ?e) 200 4 (snd ?e)"
  have w: "(1::nat) \<le> 4" by simp
  have v: "bytes_at raw_00008001 100 4 = [0x00, 0x00, 0x80, 0x01]"
    by (simp add: raw_00008001_def fresh_def with_bytes_def bytes_at_def upt_rec)
  have dv: "der_value [0x00, 0x00, 0x80, 0x01] = [0x00, 0x80, 0x01]"
    by (simp add: der_value_def stuffing_def)
  have lv: "length (der_value [0x00, 0x00, 0x80, 0x01]) \<le> 127"
    and lt: "length (der_tlv [0x00, 0x00, 0x80, 0x01]) \<le> 8"
    and l5: "length (der_tlv [0x00, 0x00, 0x80, 0x01]) = 5"
    by (simp_all add: der_tlv_length dv)
  have dj: "disjoint 100 4 300 8" "disjoint 300 8 200 4"
    by (simp_all add: disjoint_def)
  have enc: "?e = (fst ?e, snd ?e)" and dec: "?d = (fst ?d, fst (snd ?d), snd (snd ?d))"
    by simp_all
  from encode_decode_roundtrip [OF w v [symmetric] lv lt dj enc dec]
  have r: "fst ?e = 5 \<and> fst ?e \<noteq> 0 \<and> fst ?d = fst ?e
           \<and> bytes_at (snd (snd ?d)) 200 4 = [0x00, 0x00, 0x80, 0x01]"
    unfolding l5 .
  have a: "fst ?e = 5" using r by (rule conjunct1)
  have "fst ?d = fst ?e" using r by blast
  then have b: "fst ?d = 5" using a by (rule trans)
  have c: "bytes_at (snd (snd ?d)) 200 4 = [0x00, 0x00, 0x80, 0x01]" using r by blast
  show ?thesis
    using w v lv lt dj a b c by blast
qed



text \<open>
  Claim C3. For every non-empty input that \<^verbatim>\<open>encode_der_integer\<close> encodes, the TLV has
  the tag 0x02 and a length byte equal to the size of its value field; the value field is
  the input with its leading zero bytes skipped (the final byte is never skipped), with a
  single 0x00 stuffing byte before it if and only if the first remaining byte has its high
  bit 0x80 set; the value field never begins with two consecutive 0x00 bytes; and an
  all-zero input gives the single value byte 0x00. The input and the output buffer do not
  overlap.
\<close>

theorem encode_der_integer_minimal:
  assumes "0 < data_len"
    and "encode_der_integer data data_len out_buf out_buf_len m = (n, m')" and "n \<noteq> 0"
    and "disjoint data data_len out_buf out_buf_len"
    and "v = bytes_at m data data_len" and "val = bytes_at m' (out_buf + 2) (n - 2)"
  shows "mem m' out_buf = 0x02 \<and> unat (mem m' (out_buf + 1)) = length val
         \<and> val = (if hd (significant v) AND 0x80 \<noteq> 0 then [0x00] else []) @ significant v
         \<and> \<not> (2 \<le> length val \<and> val ! 0 = 0x00 \<and> val ! 1 = 0x00)
         \<and> ((\<forall>b \<in> set v. b = 0x00) \<longrightarrow> val = [0x00])"
proof -
  note ok = encode_der_integer_success [OF assms(2,3), folded assms(5)]
  have n: "n = 2 + length (der_value v)"
    using ok(4) by (simp add: der_tlv_length)
  have tlv: "bytes_at m' out_buf n = [0x02, of_nat (length (der_value v))] @ der_value v"
    using ok(5) by (simp add: der_tlv_def)
  have "mem m' out_buf = bytes_at m' out_buf n ! 0"
    using n by simp
  then have tag: "mem m' out_buf = 0x02"
    unfolding tlv by simp
  have "mem m' (out_buf + 1) = bytes_at m' out_buf n ! 1"
    using n by simp
  then have "mem m' (out_buf + 1) = of_nat (length (der_value v))"
    unfolding tlv by simp
  then have len: "unat (mem m' (out_buf + 1)) = length (der_value v)"
    using ok(3) by (simp add: unat_length_byte)
  have "val = drop 2 (bytes_at m' out_buf n)"
    unfolding assms(6) by (simp add: bytes_at_drop)
  then have val: "val = der_value v"
    unfolding tlv by simp
  have "v \<noteq> []"
    using assms(1,5) by (metis bytes_at_length length_0_conv less_numeral_extra(3))
  then have "\<not> (2 \<le> length val \<and> val ! 0 = 0x00 \<and> val ! 1 = 0x00)"
    and "(\<forall>b \<in> set v. b = 0x00) \<longrightarrow> val = [0x00]"
    unfolding val using der_value_minimal [of v] der_value_all_zero [of v] by blast+
  moreover have "val = (if hd (significant v) AND 0x80 \<noteq> 0 then [0x00] else []) @ significant v"
    unfolding val by (simp add: der_value_def stuffing_def)
  ultimately show ?thesis
    using tag len val by simp
qed

theorem encode_der_integer_minimal_witness:
  "(0::nat) < 2 \<and> disjoint 100 2 300 4
   \<and> encode_der_integer 100 2 300 4 raw_0080
       = (4, snd (encode_der_integer 100 2 300 4 raw_0080))
   \<and> bytes_at raw_0080 100 2 = [0x00, 0x80]
   \<and> mem (snd (encode_der_integer 100 2 300 4 raw_0080)) 300 = 0x02
   \<and> unat (mem (snd (encode_der_integer 100 2 300 4 raw_0080)) (300 + 1)) = 2
   \<and> bytes_at (snd (encode_der_integer 100 2 300 4 raw_0080)) (300 + 2) (4 - 2) = [0x00, 0x80]
   \<and> encode_der_integer 100 2 300 4 raw_0000
       = (3, snd (encode_der_integer 100 2 300 4 raw_0000))
   \<and> bytes_at raw_0000 100 2 = [0x00, 0x00]
   \<and> bytes_at (snd (encode_der_integer 100 2 300 4 raw_0000)) (300 + 2) (3 - 2) = [0x00]"
proof -
  have pos: "(0::nat) < 2" by simp
  have dj: "disjoint 100 2 300 4" by (simp add: disjoint_def)
  have run1: "encode_der_integer 100 2 300 4 raw_0080
       = (4, snd (encode_der_integer 100 2 300 4 raw_0080))"
    by (simp add: raw_0080_def run_defs)
  have run2: "encode_der_integer 100 2 300 4 raw_0000
       = (3, snd (encode_der_integer 100 2 300 4 raw_0000))"
    by (simp add: raw_0000_def run_defs)
  have v1: "bytes_at raw_0080 100 2 = [0x00, 0x80]"
    by (simp add: raw_0080_def fresh_def with_bytes_def bytes_at_def upt_rec)
  have v2: "bytes_at raw_0000 100 2 = [0x00, 0x00]"
    by (simp add: raw_0000_def fresh_def with_bytes_def bytes_at_def upt_rec)
  have nz: "(4::nat) \<noteq> 0" "(3::nat) \<noteq> 0" by simp_all
  note i1 = encode_der_integer_minimal [OF pos run1 nz(1) dj refl refl]
  note i2 = encode_der_integer_minimal [OF pos run2 nz(2) dj refl refl]
  have "mem (snd (encode_der_integer 100 2 300 4 raw_0080)) 300 = 0x02"
    and "unat (mem (snd (encode_der_integer 100 2 300 4 raw_0080)) (300 + 1)) = 2"
    and "bytes_at (snd (encode_der_integer 100 2 300 4 raw_0080)) (300 + 2) (4 - 2) = [0x00, 0x80]"
    using i1 unfolding v1 by simp_all
  moreover have "bytes_at (snd (encode_der_integer 100 2 300 4 raw_0000)) (300 + 2) (3 - 2) = [0x00]"
    using i2 unfolding v2 by simp
  ultimately show ?thesis
    using pos dj run1 run2 v1 v2 by blast
qed

text \<open>
  Claim C4. \<^verbatim>\<open>decode_asn1_uint\<close> returns the zero sentinel whenever fewer than 3 input
  bytes are available, or the tag byte is not 0x02, or the length byte is 0 or greater
  than 127, or the declared value length extends past the declared input length, or the
  value field (of at least two bytes) begins with two consecutive 0x00 bytes, or the
  integer width left after the stuffing step exceeds the output capacity.
\<close>

theorem decode_asn1_uint_rejects:
  assumes "asn1_len < 3 \<or> mem m asn1 \<noteq> 0x02
           \<or> mem m (asn1 + 1) = 0 \<or> 127 < unat (mem m (asn1 + 1))
           \<or> asn1_len < 2 + unat (mem m (asn1 + 1))
           \<or> (2 \<le> unat (mem m (asn1 + 1)) \<and> mem m (asn1 + 2) = 0x00 \<and> mem m (asn1 + 3) = 0x00)
           \<or> out_int_len < integer_width m asn1"
  shows "fst (decode_asn1_uint asn1 asn1_len out_int out_int_len m) = 0"
proof -
  have "\<not> accepts m asn1 asn1_len out_int_len"
    using assms by (auto simp: accepts_def declared_length_def unat_eq_0)
  then show ?thesis
    by (simp add: decode_asn1_uint_ret)
qed

theorem decode_asn1_uint_rejects_witness:
  "(2 \<le> unat (mem tlv_two_zeros (100 + 1)) \<and> mem tlv_two_zeros (100 + 2) = 0x00
      \<and> mem tlv_two_zeros (100 + 3) = 0x00)
   \<and> fst (decode_asn1_uint 100 5 200 32 tlv_two_zeros) = 0"
proof -
  have h: "2 \<le> unat (mem tlv_two_zeros (100 + 1)) \<and> mem tlv_two_zeros (100 + 2) = 0x00
      \<and> mem tlv_two_zeros (100 + 3) = 0x00"
    by (simp add: tlv_two_zeros_def fresh_def with_bytes_def)
  then show ?thesis
    using decode_asn1_uint_rejects [of 5 tlv_two_zeros 100 32 200] by blast
qed

text \<open>
  Claim C5. Whenever \<^verbatim>\<open>decode_asn1_uint\<close> succeeds (returns a value other than the zero
  sentinel), the value returned is 2, for the tag byte and the length byte, plus the
  length that the length byte of the TLV declares. The declared length counts a leading
  0x00 stuffing byte, so the count does not depend on whether one was stripped; and it
  never exceeds the declared input length, so the caller can advance past the TLV.
\<close>

theorem decode_asn1_uint_consumed:
  assumes "decode_asn1_uint asn1 asn1_len out_int out_int_len m = (ret, len', m')"
    and "ret \<noteq> 0"
  shows "ret = 2 + unat (mem m (asn1 + 1)) \<and> ret \<le> asn1_len"
proof (cases "accepts m asn1 asn1_len out_int_len")
  case True
  then have "ret = 2 + declared_length m asn1"
    using arg_cong [OF assms(1), of fst] by (simp add: decode_asn1_uint_ret)
  moreover have "2 + declared_length m asn1 \<le> asn1_len"
    using True by (simp add: accepts_def)
  ultimately show ?thesis by (simp add: declared_length_def)
next
  case False
  then have "ret = 0"
    using arg_cong [OF assms(1), of fst] by (simp add: decode_asn1_uint_ret)
  with assms(2) show ?thesis by simp
qed

theorem decode_asn1_uint_consumed_witness:
  "decode_asn1_uint 100 4 200 1 tlv_redundant_stuffing
     = (4, 1, snd (snd (decode_asn1_uint 100 4 200 1 tlv_redundant_stuffing)))
   \<and> (4::nat) \<noteq> 0
   \<and> (4::nat) = 2 + unat (mem tlv_redundant_stuffing (100 + 1)) \<and> (4::nat) \<le> 4"
proof -
  have run: "decode_asn1_uint 100 4 200 1 tlv_redundant_stuffing
     = (4, 1, snd (snd (decode_asn1_uint 100 4 200 1 tlv_redundant_stuffing)))"
    by (simp add: tlv_redundant_stuffing_def run_defs)
  have nz: "(4::nat) \<noteq> 0" by simp
  from decode_asn1_uint_consumed [OF run nz] run nz show ?thesis by simp
qed

text \<open>
  Claim C6. Whenever \<^verbatim>\<open>encode_der_integer\<close> returns the zero sentinel, it has written
  nothing: the memory is as before and the write log has not grown. Whenever
  \<^verbatim>\<open>decode_asn1_uint\<close> returns the zero sentinel, it has written nothing either, and
  the in-out cell \<^verbatim>\<open>*out_int_len\<close> holds its old value. All writes of both functions
  come after the last check.
\<close>

theorem failure_is_atomic:
  "(encode_der_integer data data_len out_buf out_buf_len m = (0, m') \<longrightarrow>
      mem m' = mem m \<and> wr_log m' = wr_log m)
   \<and> (decode_asn1_uint asn1 asn1_len out_int out_int_len s = (0, len', s') \<longrightarrow>
      len' = out_int_len \<and> mem s' = mem s \<and> wr_log s' = wr_log s)"
proof (intro conjI impI)
  assume run: "encode_der_integer data data_len out_buf out_buf_len m = (0, m')"
  let ?v = "bytes_at m data data_len"
  have "fst (encode_der_integer data data_len out_buf out_buf_len m) = 0"
    by (simp add: run)
  then have fail: "data_len = 0 \<or> out_buf_len < length (der_tlv ?v) \<or> 127 < length (der_value ?v)"
    by (simp add: encode_der_integer_ret der_tlv_length split: if_splits)
  have m': "m' = snd (encode_der_integer data data_len out_buf out_buf_len m)"
    by (simp add: run)
  show "mem m' = mem m"
    unfolding m' using fail by (simp add: encode_der_integer_mem Let_def)
  show "wr_log m' = wr_log m"
    unfolding m' using fail by (simp add: encode_der_integer_wr_log Let_def)
next
  assume run: "decode_asn1_uint asn1 asn1_len out_int out_int_len s = (0, len', s')"
  have "fst (decode_asn1_uint asn1 asn1_len out_int out_int_len s) = 0"
    by (simp add: run)
  then have fail: "\<not> accepts s asn1 asn1_len out_int_len"
    by (simp add: decode_asn1_uint_ret split: if_splits)
  have proj: "len' = fst (snd (decode_asn1_uint asn1 asn1_len out_int out_int_len s))"
    "s' = snd (snd (decode_asn1_uint asn1 asn1_len out_int out_int_len s))"
    by (simp_all add: run)
  show "len' = out_int_len"
    unfolding proj using fail by (simp add: decode_asn1_uint_len)
  show "mem s' = mem s"
    unfolding proj using fail by (simp add: decode_asn1_uint_mem)
  show "wr_log s' = wr_log s"
    unfolding proj using fail by (simp add: decode_asn1_uint_wr_log)
qed

theorem failure_is_atomic_witness:
  "encode_der_integer 100 2 300 3 raw_0080
     = (0, snd (encode_der_integer 100 2 300 3 raw_0080))
   \<and> mem (snd (encode_der_integer 100 2 300 3 raw_0080)) = mem raw_0080
   \<and> wr_log (snd (encode_der_integer 100 2 300 3 raw_0080)) = wr_log raw_0080
   \<and> decode_asn1_uint 100 5 200 32 tlv_two_zeros
     = (0, 32, snd (snd (decode_asn1_uint 100 5 200 32 tlv_two_zeros)))
   \<and> mem (snd (snd (decode_asn1_uint 100 5 200 32 tlv_two_zeros))) = mem tlv_two_zeros
   \<and> wr_log (snd (snd (decode_asn1_uint 100 5 200 32 tlv_two_zeros))) = wr_log tlv_two_zeros"
proof -
  have enc: "encode_der_integer 100 2 300 3 raw_0080
     = (0, snd (encode_der_integer 100 2 300 3 raw_0080))"
    by (simp add: raw_0080_def run_defs)
  have dec: "decode_asn1_uint 100 5 200 32 tlv_two_zeros
     = (0, 32, snd (snd (decode_asn1_uint 100 5 200 32 tlv_two_zeros)))"
    by (simp add: tlv_two_zeros_def run_defs)
  show ?thesis
    using failure_is_atomic [of 100 2 300 3 raw_0080
        "snd (encode_der_integer 100 2 300 3 raw_0080)" 100 5 200 32 tlv_two_zeros 32
        "snd (snd (decode_asn1_uint 100 5 200 32 tlv_two_zeros))"] enc dec
    by simp
qed

text \<open>
  Claim C7. Whenever \<^verbatim>\<open>decode_asn1_uint\<close> succeeds with output capacity \<open>c\<close>, the in-out
  cell holds afterwards the width \<open>n\<close> of the integer that is left once the stuffing byte
  is stripped, \<open>n\<close> is at most \<open>c\<close>, the first \<open>c - n\<close> bytes of the output buffer are
  0x00, and its last \<open>n\<close> bytes are the last \<open>n\<close> bytes of the value field, in order.
  The input range and the output buffer are two buffers of the caller that do not
  overlap.
\<close>

theorem decode_asn1_uint_output:
  assumes "decode_asn1_uint asn1 asn1_len out_int c m = (ret, n, m')"
    and "ret \<noteq> 0"
    and "disjoint asn1 asn1_len out_int c"
  shows "n = integer_width m asn1 \<and> n \<le> c
         \<and> bytes_at m' out_int (c - n) = replicate (c - n) 0x00
         \<and> bytes_at m' (out_int + (c - n)) n
             = bytes_at m (asn1 + 2 + (unat (mem m (asn1 + 1)) - n)) n"
  using assms by (rule decode_asn1_uint_success)

theorem decode_asn1_uint_output_witness:
  "decode_asn1_uint 100 5 200 4 tlv_stuffed_ff
     = (5, 2, snd (snd (decode_asn1_uint 100 5 200 4 tlv_stuffed_ff)))
   \<and> (5::nat) \<noteq> 0 \<and> disjoint 100 5 200 4
   \<and> bytes_at (snd (snd (decode_asn1_uint 100 5 200 4 tlv_stuffed_ff))) 200 4
       = [0x00, 0x00, 0xFF, 0x10]"
proof -
  have run: "decode_asn1_uint 100 5 200 4 tlv_stuffed_ff
     = (5, 2, snd (snd (decode_asn1_uint 100 5 200 4 tlv_stuffed_ff)))"
    by (simp add: tlv_stuffed_ff_def run_defs)
  have nz: "(5::nat) \<noteq> 0" by simp
  have dj: "disjoint 100 5 200 4" by (simp add: disjoint_def)
  have split: "bytes_at s 200 4 = bytes_at s 200 (4 - 2) @ bytes_at s (200 + (4 - 2)) 2" for s
    by (simp add: bytes_at_def upt_rec)
  have src: "bytes_at tlv_stuffed_ff (100 + 2 + (unat (mem tlv_stuffed_ff (100 + 1)) - 2)) 2
               = [0xFF, 0x10]"
    by (simp add: tlv_stuffed_ff_def fresh_def with_bytes_def bytes_at_def upt_rec)
  have pad: "replicate (4 - 2) (0x00 :: byte) = [0x00, 0x00]"
    by (simp add: numeral_2_eq_2)
  let ?m' = "snd (snd (decode_asn1_uint 100 5 200 4 tlv_stuffed_ff))"
  from decode_asn1_uint_output [OF run nz dj]
  have a: "bytes_at ?m' 200 (4 - 2) = replicate (4 - 2) 0x00"
    and b: "bytes_at ?m' (200 + (4 - 2)) 2
              = bytes_at tlv_stuffed_ff (100 + 2 + (unat (mem tlv_stuffed_ff (100 + 1)) - 2)) 2"
    by blast+
  have "bytes_at ?m' 200 4 = [0x00, 0x00, 0xFF, 0x10]"
    unfolding split [of ?m'] a b src pad by simp
  then show ?thesis
    using run nz dj by blast
qed

text \<open>
  Claim C8. For non-null \<^verbatim>\<open>r\<close>, \<^verbatim>\<open>s\<close> and \<^verbatim>\<open>asn_sig\<close> and a capacity cell,
  \<^verbatim>\<open>ecdsa_rs_to_asn1\<close> runs \<^verbatim>\<open>encode_der_integer\<close> for r at the start of the output
  buffer and then for s at the offset equal to the size of r's TLV, with the capacity that
  is left. It returns false and leaves the capacity cell unchanged if either encoding
  fails; otherwise it returns true and sets the cell to the sum of the two sizes, and the
  output buffer holds the TLV of r at offset 0 and the TLV of s right after it. The inputs
  r and s do not overlap the output buffer.
\<close>

theorem ecdsa_rs_to_asn1_composition:
  assumes "r \<noteq> NULL" and "s \<noteq> NULL" and "asn_sig \<noteq> NULL"
    and "disjoint r rs_len asn_sig capacity" and "disjoint s rs_len asn_sig capacity"
    and "encode_der_integer r rs_len asn_sig capacity m = (out_len_r, m1)"
    and "encode_der_integer s rs_len (asn_sig + out_len_r) (capacity - out_len_r) m1
           = (out_len_s, m2)"
  shows "ecdsa_rs_to_asn1 r s rs_len asn_sig (Some capacity) m =
           (if out_len_r = 0 then (False, Some capacity, m1)
            else if out_len_s = 0 then (False, Some capacity, m2)
            else (True, Some (out_len_r + out_len_s), m2))
         \<and> (out_len_r \<noteq> 0 \<and> out_len_s \<noteq> 0 \<longrightarrow>
              bytes_at m2 asn_sig out_len_r = der_tlv (bytes_at m r rs_len)
              \<and> bytes_at m2 (asn_sig + out_len_r) out_len_s = der_tlv (bytes_at m s rs_len))"
proof (intro conjI impI)
  show "ecdsa_rs_to_asn1 r s rs_len asn_sig (Some capacity) m =
           (if out_len_r = 0 then (False, Some capacity, m1)
            else if out_len_s = 0 then (False, Some capacity, m2)
            else (True, Some (out_len_r + out_len_s), m2))"
    using assms(1,2,3,6,7) by (simp add: ecdsa_rs_to_asn1_def Let_def)
next
  assume ok: "out_len_r \<noteq> 0 \<and> out_len_s \<noteq> 0"
  have projr: "out_len_r = fst (encode_der_integer r rs_len asn_sig capacity m)"
    "m1 = snd (encode_der_integer r rs_len asn_sig capacity m)"
    using assms(6) by simp_all
  have projs: "out_len_s = fst (encode_der_integer s rs_len (asn_sig + out_len_r)
                                  (capacity - out_len_r) m1)"
    "m2 = snd (encode_der_integer s rs_len (asn_sig + out_len_r) (capacity - out_len_r) m1)"
    using assms(7) by simp_all
  have le: "out_len_r \<le> capacity"
    unfolding projr by (rule encode_der_integer_le_capacity)
  have first: "bytes_at m1 asn_sig out_len_r = der_tlv (bytes_at m r rs_len)"
    using encode_der_integer_success(5) [OF assms(6)] ok by simp
  have keep: "bytes_at m2 asn_sig out_len_r = bytes_at m1 asn_sig out_len_r"
  proof (rule bytes_at_cong)
    fix i assume "i < out_len_r"
    then show "mem m2 (asn_sig + i) = mem m1 (asn_sig + i)"
      unfolding projs(2) by (intro encode_der_integer_frame) simp
  qed
  have "bytes_at m1 s rs_len = bytes_at m s rs_len"
  proof (rule bytes_at_cong)
    fix i assume "i < rs_len"
    then have "s + i < asn_sig \<or> asn_sig + out_len_r \<le> s + i"
      using assms(5) le by (auto simp: disjoint_def)
    then show "mem m1 (s + i) = mem m (s + i)"
      unfolding projr by (intro encode_der_integer_frame) simp
  qed
  then have second: "bytes_at m2 (asn_sig + out_len_r) out_len_s = der_tlv (bytes_at m s rs_len)"
    using encode_der_integer_success(5) [OF assms(7)] ok by simp
  show "bytes_at m2 asn_sig out_len_r = der_tlv (bytes_at m r rs_len)"
    using keep first by simp
  show "bytes_at m2 (asn_sig + out_len_r) out_len_s = der_tlv (bytes_at m s rs_len)"
    by (rule second)
qed

theorem ecdsa_rs_to_asn1_composition_witness:
  "(100::nat) \<noteq> NULL \<and> (200::nat) \<noteq> NULL \<and> (300::nat) \<noteq> NULL
   \<and> disjoint 100 32 300 72 \<and> disjoint 200 32 300 72
   \<and> bytes_at rs_one_one 100 32 = replicate 31 0x00 @ [0x01]
   \<and> bytes_at rs_one_one 200 32 = replicate 31 0x00 @ [0x01]
   \<and> fst (ecdsa_rs_to_asn1 100 200 32 300 (Some 72) rs_one_one) = True
   \<and> fst (snd (ecdsa_rs_to_asn1 100 200 32 300 (Some 72) rs_one_one)) = Some 6
   \<and> bytes_at (snd (snd (ecdsa_rs_to_asn1 100 200 32 300 (Some 72) rs_one_one))) 300 6
       = [0x02, 0x01, 0x01, 0x02, 0x01, 0x01]"
proof -
  let ?m1 = "snd (encode_der_integer 100 32 300 72 rs_one_one)"
  let ?m2 = "snd (encode_der_integer 200 32 (300 + 3) (72 - 3) ?m1)"
  have nn: "(100::nat) \<noteq> NULL" "(200::nat) \<noteq> NULL" "(300::nat) \<noteq> NULL"
    by (simp_all add: NULL_def)
  have dj: "disjoint 100 32 300 72" "disjoint 200 32 300 72"
    by (simp_all add: disjoint_def)
  have r: "bytes_at rs_one_one 100 32 = replicate 31 0x00 @ [0x01]"
    and s: "bytes_at rs_one_one 200 32 = replicate 31 0x00 @ [0x01]"
    by (rule nth_equalityI;
        simp add: rs_one_one_def fresh_def with_bytes_def nth_append less_Suc_eq)+
  have sig: "significant (replicate n 0x00 @ [0x01]) = [0x01]" for n
    by (induction n) (simp_all add: significant_zero_Cons)
  have tlv: "der_tlv (replicate 31 0x00 @ [0x01]) = [0x02, 0x01, 0x01]"
    by (simp add: der_tlv_def der_value_def stuffing_def sig)
  have enc_r: "encode_der_integer 100 32 300 72 rs_one_one = (3, ?m1)"
    by (simp add: rs_one_one_def run_defs nth_append)
  have enc_s: "encode_der_integer 200 32 (300 + 3) (72 - 3) ?m1 = (3, ?m2)"
    by (simp add: rs_one_one_def run_defs nth_append)
  note comp = ecdsa_rs_to_asn1_composition [OF nn dj enc_r enc_s, unfolded r s tlv]
  have run: "ecdsa_rs_to_asn1 100 200 32 300 (Some 72) rs_one_one = (True, Some 6, ?m2)"
    using comp by simp
  have "bytes_at ?m2 300 3 = [0x02, 0x01, 0x01]" and "bytes_at ?m2 (300 + 3) 3 = [0x02, 0x01, 0x01]"
    using comp by simp_all
  then have "bytes_at ?m2 300 (3 + 3) = [0x02, 0x01, 0x01] @ [0x02, 0x01, 0x01]"
    by (simp only: bytes_at_append)
  then have out: "bytes_at ?m2 300 6 = [0x02, 0x01, 0x01, 0x02, 0x01, 0x01]"
    by simp
  show ?thesis
    using nn dj r s out by (simp add: run)
qed



text \<open>
  Claim C10. There is an input on which \<^verbatim>\<open>decode_asn1_uint\<close> succeeds although the
  0x00 stuffing byte is redundant under DER: the TLV \<^verbatim>\<open>02 02 00 01\<close>, whose byte after
  the 0x00 has its high bit clear. The decoder strips the 0x00, reports 4 bytes consumed
  and a width of 1, and writes the value byte 0x01.
\<close>

theorem redundant_stuffing_accepted:
  "bytes_at tlv_redundant_stuffing 100 4 = [0x02, 0x02, 0x00, 0x01]
   \<and> (0x01 :: byte) AND 0x80 = 0
   \<and> fst (decode_asn1_uint 100 4 200 1 tlv_redundant_stuffing) = 4
   \<and> fst (snd (decode_asn1_uint 100 4 200 1 tlv_redundant_stuffing)) = 1
   \<and> bytes_at (snd (snd (decode_asn1_uint 100 4 200 1 tlv_redundant_stuffing))) 200 1 = [0x01]"
  by (simp add: tlv_redundant_stuffing_def run_defs upt_rec)

end
